theory Spec2Isabelle
  imports Complex_Main "HOL-Library.Word" "HOL-Library.Sublist"
begin

section \<open>The genome sequence codec of \<^verbatim>\<open>src/genomics/compression.py\<close>\<close>

text \<open>
  A shallow embedding of the class \<^verbatim>\<open>GenomeCompressor\<close>. Python strings are
  \<^typ>\<open>string\<close>s; every sequence the validator admits is ASCII, and the embedding is
  read over ASCII text. Python's unbounded integers are \<^typ>\<open>int\<close> or \<^typ>\<open>nat\<close>
  (lengths and indices), bytes objects are lists of 8-bit words, exceptions are values of
  the type \<open>error\<close>, and a call that may raise returns \<open>error + 'a\<close>.
\<close>

subsection \<open>Exceptions\<close>

datatype error =
    InvalidSequence        \<comment> \<open>\<^verbatim>\<open>ValueError("Invalid genome sequence")\<close>, raised by \<^verbatim>\<open>compress\<close>\<close>
  | ChecksumMismatch int   \<comment> \<open>\<^verbatim>\<open>ValueError("Checksum mismatch for chunk at position ...")\<close>\<close>
  | RangeStepZero          \<comment> \<open>\<^verbatim>\<open>ValueError\<close> of \<^verbatim>\<open>range\<close> with step 0\<close>
  | IntLiteralError        \<comment> \<open>\<^verbatim>\<open>ValueError\<close> of \<^verbatim>\<open>int(s, 2)\<close> on a string that is no binary literal\<close>
  | OverflowError          \<comment> \<open>\<^verbatim>\<open>int.to_bytes\<close>: the integer does not fit\<close>
  | TypeError              \<comment> \<open>an operator applied to operands of unsupported types\<close>
  | ZeroDivisionError
  | LibraryError string    \<comment> \<open>raised inside \<^verbatim>\<open>zlib\<close>, \<^verbatim>\<open>base64\<close> or \<^verbatim>\<open>bytes.decode\<close>\<close>

type_synonym byte = "8 word"

subsection \<open>Constants set by \<^verbatim>\<open>__init__\<close>\<close>

definition quality_threshold :: int where
  "quality_threshold = 30"

definition min_pattern_length :: nat where
  "min_pattern_length = 8"

definition max_pattern_length :: nat where
  "max_pattern_length = 32"

subsection \<open>\<^verbatim>\<open>_calculate_quality_scores\<close>\<close>

text \<open>
  The body of the loop at index \<open>i\<close>. The guards \<^verbatim>\<open>i > 0\<close> and \<^verbatim>\<open>i > 1\<close> keep
  the reads \<^verbatim>\<open>sequence[i-1]\<close> and \<^verbatim>\<open>sequence[i-2]\<close> in range.
\<close>

definition quality_score_at :: "string \<Rightarrow> nat \<Rightarrow> int" where
  "quality_score_at sequence i =
     (let score = 30;
          score = (if 0 < i \<and> sequence ! i = sequence ! (i - 1) then score + 5 else score);
          score = (if 1 < i \<and> sequence ! i = sequence ! (i - 2) then score + 3 else score)
      in min score 40)"

definition calculate_quality_scores :: "string \<Rightarrow> int list" where
  "calculate_quality_scores sequence = map (quality_score_at sequence) [0..<length sequence]"

text \<open>
  The test of the warning branch of \<^verbatim>\<open>decompress\<close>:
  \<^verbatim>\<open>metadata['quality_scores'] and any(score < self.quality_threshold ...)\<close>.
\<close>

definition low_quality_detected :: "int list \<Rightarrow> bool" where
  "low_quality_detected scores = (scores \<noteq> [] \<and> list_ex (\<lambda>score. score < quality_threshold) scores)"

subsection \<open>\<^verbatim>\<open>_encode_sequence\<close>\<close>

text \<open>
  \<^verbatim>\<open>str.upper\<close> on ASCII text. No character outside ASCII has an upper-case form
  among \<^verbatim>\<open>A C G T N\<close> or the line feed, so leaving the other characters as they are
  changes no test made below.
\<close>

definition upper_char :: "char \<Rightarrow> char" where
  "upper_char c =
     (let n = (of_char c :: nat) in if 97 \<le> n \<and> n \<le> 122 then char_of (n - 32) else c)"

definition upper :: "string \<Rightarrow> string" where
  "upper s = map upper_char s"

text \<open>\<^verbatim>\<open>encoding.get(base, '00')\<close> on the dictionary \<^verbatim>\<open>{'A': '00', 'C': '01', 'G': '10', 'T': '11'}\<close>.\<close>

definition encoding_get :: "char \<Rightarrow> string" where
  "encoding_get base =
     (if base = CHR ''A'' then ''00''
      else if base = CHR ''C'' then ''01''
      else if base = CHR ''G'' then ''10''
      else if base = CHR ''T'' then ''11''
      else ''00'')"

definition bin_digit :: "nat \<Rightarrow> char" where
  "bin_digit d = (if d = 0 then CHR ''0'' else CHR ''1'')"

fun bin_digits :: "nat \<Rightarrow> string" where
  "bin_digits n = (if n < 2 then [bin_digit n] else bin_digits (n div 2) @ [bin_digit (n mod 2)])"

declare bin_digits.simps [simp del]

text \<open>\<^verbatim>\<open>format(score, '08b')\<close>: binary digits, padded with zeros to the width 8,
  the sign of a negative number in front and counted in the width.\<close>

definition format_08b :: "int \<Rightarrow> string" where
  "format_08b score =
     (if score < 0
      then (let ds = bin_digits (nat (- score)) in CHR ''-'' # replicate (7 - length ds) (CHR ''0'') @ ds)
      else (let ds = bin_digits (nat score) in replicate (8 - length ds) (CHR ''0'') @ ds))"

definition bit_value :: "char \<Rightarrow> int" where
  "bit_value c = (if c = CHR ''1'' then 1 else 0)"

definition binary_value :: "string \<Rightarrow> int" where
  "binary_value s = foldl (\<lambda>acc c. 2 * acc + bit_value c) 0 s"

text \<open>
  \<^verbatim>\<open>int(s, 2)\<close> on the strings \<^verbatim>\<open>_encode_sequence\<close> builds: binary digits, with a
  minus sign only behind a digit. Such a string is a literal when it is not empty and holds
  digits only.
\<close>

definition int_base2 :: "string \<Rightarrow> error + int" where
  "int_base2 s =
     (if s = [] \<or> \<not> list_all (\<lambda>c. c = CHR ''0'' \<or> c = CHR ''1'') s then Inl IntLiteralError
      else Inr (binary_value s))"

text \<open>\<^verbatim>\<open>v.to_bytes(len, byteorder='big')\<close>: unsigned, so a negative \<open>v\<close> does not fit either.\<close>

definition to_bytes_big :: "int \<Rightarrow> nat \<Rightarrow> error + byte list" where
  "to_bytes_big v len =
     (if v < 0 \<or> 256 ^ len \<le> v then Inl OverflowError
      else Inr (map (\<lambda>k. of_int (v div 256 ^ (len - 1 - k))) [0..<len]))"

definition encode_sequence :: "string \<Rightarrow> error + byte list" where
  "encode_sequence sequence =
     (let binary = concat (map encoding_get (upper sequence));
          quality_scores = calculate_quality_scores sequence;
          quality_binary = concat (map format_08b quality_scores);
          combined = binary @ quality_binary
      in case int_base2 combined of
           Inl e \<Rightarrow> Inl e
         | Inr v \<Rightarrow> to_bytes_big v ((length combined + 7) div 8))"

text \<open>
  The encoder as the specification words it: the combined bit string, filled up at its end
  with zero bits to a whole number of bytes, eight bits to a byte, first bit highest.
\<close>

fun pack_bits :: "string \<Rightarrow> byte list" where
  "pack_bits bits =
     (if bits = [] then [] else of_int (binary_value (take 8 bits)) # pack_bits (drop 8 bits))"

declare pack_bits.simps [simp del]

definition combined_bits :: "string \<Rightarrow> int list \<Rightarrow> string" where
  "combined_bits sequence scores =
     concat (map encoding_get (upper sequence)) @ concat (map format_08b scores)"

definition pad_length :: "nat \<Rightarrow> nat" where
  "pad_length n = (8 - n mod 8) mod 8"

definition spec_encode :: "string \<Rightarrow> int list \<Rightarrow> byte list" where
  "spec_encode sequence scores =
     (let bits = combined_bits sequence scores
      in pack_bits (bits @ replicate (pad_length (length bits)) (CHR ''0'')))"

subsection \<open>\<^verbatim>\<open>_find_patterns\<close>\<close>

text \<open>\<^verbatim>\<open>s[i:j]\<close> for indices that are not negative.\<close>

definition substring :: "'a list \<Rightarrow> nat \<Rightarrow> nat \<Rightarrow> 'a list" where
  "substring s i j = take (j - i) (drop i s)"

text \<open>
  \<^verbatim>\<open>str.count\<close> counts occurrences that do not overlap, from the left: after a match
  the search goes on behind it. The empty string is found between all characters.
\<close>

fun count_from :: "string \<Rightarrow> string \<Rightarrow> nat" where
  "count_from sub [] = 0"
| "count_from sub (c # cs) =
     (if prefix sub (c # cs) then Suc (count_from sub (drop (length sub - 1) cs))
      else count_from sub cs)"

definition str_count :: "string \<Rightarrow> string \<Rightarrow> nat" where
  "str_count s sub = (if sub = [] then length s + 1 else count_from sub s)"

text \<open>
  A \<^verbatim>\<open>dict\<close> keeps its keys in the order of their insertion: an association list with
  distinct keys. \<^verbatim>\<open>patterns[pattern].append(i)\<close> on the \<^verbatim>\<open>defaultdict(list)\<close>
  enters a missing key at the end.
\<close>

type_synonym pattern_map = "(string \<times> nat list) list"

fun append_position :: "string \<Rightarrow> nat \<Rightarrow> pattern_map \<Rightarrow> pattern_map" where
  "append_position pattern i [] = [(pattern, [i])]"
| "append_position pattern i ((k, v) # d) =
     (if k = pattern then (k, v @ [i]) # d else (k, v) # append_position pattern i d)"

definition scan_window :: "string \<Rightarrow> nat \<Rightarrow> pattern_map \<Rightarrow> nat \<Rightarrow> pattern_map" where
  "scan_window sequence len patterns i =
     (let pattern = substring sequence i (i + len)
      in if 1 < str_count sequence pattern then append_position pattern i patterns
         else patterns)"

definition scan_length :: "string \<Rightarrow> pattern_map \<Rightarrow> nat \<Rightarrow> pattern_map" where
  "scan_length sequence patterns len =
     foldl (scan_window sequence len) patterns [0..<length sequence - len]"

definition scan_patterns :: "string \<Rightarrow> pattern_map" where
  "scan_patterns sequence =
     foldl (scan_length sequence) [] [min_pattern_length..<max_pattern_length + 1]"

definition find_patterns :: "string \<Rightarrow> pattern_map" where
  "find_patterns sequence = filter (\<lambda>(k, v). 2 < length v) (scan_patterns sequence)"

text \<open>
  The detector as the specification words it: every start index of a window of the length,
  the last one \<open>length sequence - len\<close> included.
\<close>

definition spec_scan_length :: "string \<Rightarrow> pattern_map \<Rightarrow> nat \<Rightarrow> pattern_map" where
  "spec_scan_length sequence patterns len =
     foldl (scan_window sequence len) patterns [0..<length sequence + 1 - len]"

definition spec_find_patterns :: "string \<Rightarrow> pattern_map" where
  "spec_find_patterns sequence =
     filter (\<lambda>(k, v). 2 < length v)
       (foldl (spec_scan_length sequence) [] [min_pattern_length..<max_pattern_length + 1])"

subsection \<open>Floating point\<close>

text \<open>
  A \<^verbatim>\<open>float\<close> is the rational number it stands for. Every operation used here
  (the literals, the conversion of an \<^verbatim>\<open>int\<close>, sum, product, quotient) returns the exact
  result rounded to the nearest number with 53 significant bits, ties to the even one:
  that rounding is \<open>fl\<close>. The exponent range is left out; the numbers below are sizes and
  rates, far inside it.
\<close>

function bit_length :: "int \<Rightarrow> nat" where
  "bit_length n = (if n \<le> 0 then 0 else Suc (bit_length (n div 2)))"
  by pat_completeness auto
termination
  by (relation "measure nat") auto

declare bit_length.simps [simp del]

definition floor_log2 :: "rat \<Rightarrow> int" where
  "floor_log2 x =
     (if 1 \<le> x then int (bit_length \<lfloor>x\<rfloor>) - 1
      else - int (bit_length (\<lceil>1 / x\<rceil> - 1)))"

definition pow2 :: "int \<Rightarrow> rat" where
  "pow2 e = (if 0 \<le> e then 2 ^ nat e else 1 / 2 ^ nat (- e))"

definition round_half_even :: "rat \<Rightarrow> int" where
  "round_half_even x =
     (let f = \<lfloor>x\<rfloor>; r = x - of_int f
      in if r < 1 / 2 then f else if 1 / 2 < r then f + 1 else if even f then f else f + 1)"

definition fl :: "rat \<Rightarrow> rat" where
  "fl x =
     (if x = 0 then 0
      else (let e = floor_log2 \<bar>x\<bar> - 52 in of_int (round_half_even (x / pow2 e)) * pow2 e))"

datatype number = PyInt int | PyFloat rat

definition to_float :: "number \<Rightarrow> rat" where
  "to_float a = (case a of PyInt i \<Rightarrow> fl (of_int i) | PyFloat x \<Rightarrow> x)"

definition num_add :: "number \<Rightarrow> number \<Rightarrow> number" where
  "num_add a b =
     (case (a, b) of
        (PyInt i, PyInt j) \<Rightarrow> PyInt (i + j)
      | _ \<Rightarrow> PyFloat (fl (to_float a + to_float b)))"

definition is_zero :: "number \<Rightarrow> bool" where
  "is_zero a = (case a of PyInt i \<Rightarrow> i = 0 | PyFloat x \<Rightarrow> x = 0)"

text \<open>True division \<^verbatim>\<open>a / b\<close>; of two \<^verbatim>\<open>int\<close>s it is the rounded exact quotient.\<close>

definition num_truediv :: "number \<Rightarrow> number \<Rightarrow> error + number" where
  "num_truediv a b =
     (if is_zero b then Inl ZeroDivisionError
      else case (a, b) of
             (PyInt i, PyInt j) \<Rightarrow> Inr (PyFloat (fl (of_int i / of_int j)))
           | _ \<Rightarrow> Inr (PyFloat (fl (to_float a / to_float b))))"

text \<open>The values the statistics of \<^verbatim>\<open>compress\<close> add up: numbers and lists of scores.\<close>

datatype pyval = Num number | IntList "int list"

fun py_add :: "pyval \<Rightarrow> pyval \<Rightarrow> error + pyval" where
  "py_add (Num a) (Num b) = Inr (Num (num_add a b))"
| "py_add (IntList xs) (IntList ys) = Inr (IntList (xs @ ys))"
| "py_add (Num a) (IntList ys) = Inl TypeError"
| "py_add (IntList xs) (Num b) = Inl TypeError"

fun py_truediv :: "pyval \<Rightarrow> pyval \<Rightarrow> error + pyval" where
  "py_truediv (Num a) (Num b) = (case num_truediv a b of Inl e \<Rightarrow> Inl e | Inr q \<Rightarrow> Inr (Num q))"
| "py_truediv (IntList xs) b = Inl TypeError"
| "py_truediv (Num a) (IntList ys) = Inl TypeError"

text \<open>\<^verbatim>\<open>sum(items)\<close>: the items are added, one after the other, to the start value \<^verbatim>\<open>0\<close>.\<close>

fun py_sum_from :: "pyval \<Rightarrow> pyval list \<Rightarrow> error + pyval" where
  "py_sum_from acc [] = Inr acc"
| "py_sum_from acc (x # xs) =
     (case py_add acc x of Inl e \<Rightarrow> Inl e | Inr acc' \<Rightarrow> py_sum_from acc' xs)"

definition py_sum :: "pyval list \<Rightarrow> error + pyval" where
  "py_sum items = py_sum_from (Num (PyInt 0)) items"

subsection \<open>\<^verbatim>\<open>_is_highly_repetitive\<close> and \<^verbatim>\<open>_calculate_error_rate\<close>\<close>

text \<open>An \<^verbatim>\<open>int\<close> and a \<^verbatim>\<open>float\<close> are compared by their exact values.\<close>

definition is_highly_repetitive :: "string \<Rightarrow> bool" where
  "is_highly_repetitive sequence =
     (let patterns = find_patterns sequence;
          total_repeats = sum_list (map (\<lambda>(k, positions). length positions) patterns)
      in fl (fl (of_nat (length sequence)) * fl (3 / 10)) < of_nat total_repeats)"

definition error_step :: "string \<Rightarrow> number \<Rightarrow> nat \<Rightarrow> number" where
  "error_step sequence errors i =
     (let errors = (if sequence ! i \<in> set ''ACGT'' then errors else num_add errors (PyInt 1));
          errors = (if 0 < i \<and> sequence ! i = sequence ! (i - 1)
                    then num_add errors (PyFloat (fl (1 / 10))) else errors)
      in errors)"

definition calculate_error_rate :: "string \<Rightarrow> error + number" where
  "calculate_error_rate sequence =
     (let errors = foldl (error_step sequence) (PyInt 0) [0..<length sequence]
      in num_truediv errors (PyInt (int (length sequence))))"

subsection \<open>\<^verbatim>\<open>_validate_sequence\<close>\<close>

text \<open>
  \<^verbatim>\<open>re.match(r'^[ACGTN]+$', text)\<close>. Without \<^verbatim>\<open>re.MULTILINE\<close>, \<^verbatim>\<open>$\<close> matches at
  the end of the text and also just before a line feed that is its last character.
\<close>

definition match_ACGTN :: "string \<Rightarrow> bool" where
  "match_ACGTN text =
     (let body = (if text \<noteq> [] \<and> last text = CHR 0x0A then butlast text else text)
      in body \<noteq> [] \<and> list_all (\<lambda>c. c \<in> set ''ACGTN'') body)"

definition validate_sequence :: "string \<Rightarrow> bool" where
  "validate_sequence sequence =
     (if \<not> match_ACGTN (upper sequence) then False
      else if length sequence < 100 then False
      else True)"

subsection \<open>The library functions\<close>

text \<open>
  \<^verbatim>\<open>zlib\<close>, \<^verbatim>\<open>base64\<close> and \<^verbatim>\<open>bytes.decode\<close> are not code of this repository:
  the codec takes them as a parameter, and every statement below holds for all of them.
  \<^verbatim>\<open>zlib.crc32\<close> returns an unsigned 32-bit number.
\<close>

record stdlib =
  zlib_compress :: "byte list \<Rightarrow> byte list"
  zlib_decompress :: "byte list \<Rightarrow> error + byte list"
  zlib_crc32 :: "byte list \<Rightarrow> 32 word"
  b64encode :: "byte list \<Rightarrow> byte list"
  b64decode :: "byte list \<Rightarrow> error + byte list"
  bytes_decode :: "byte list \<Rightarrow> error + string"

subsection \<open>\<^verbatim>\<open>_compress_chunk\<close>\<close>

record chunk_metadata =
  original_length :: int
  patterns :: pattern_map
  checksum :: int
  quality_scores :: "int list"
  compression_type :: string
  error_rate :: number

definition compress_repetitive :: "stdlib \<Rightarrow> byte list \<Rightarrow> byte list" where
  "compress_repetitive lib data = zlib_compress lib data"

definition compress_chunk :: "stdlib \<Rightarrow> string \<Rightarrow> error + (byte list \<times> chunk_metadata)" where
  "compress_chunk lib chunk =
     (case encode_sequence chunk of
        Inl e \<Rightarrow> Inl e
      | Inr encoded \<Rightarrow>
          (let found = find_patterns chunk;
               compressed = (if is_highly_repetitive chunk then compress_repetitive lib encoded
                             else zlib_compress lib encoded)
           in case calculate_error_rate chunk of
                Inl e \<Rightarrow> Inl e
              | Inr rate \<Rightarrow>
                  Inr (compressed,
                       \<lparr>original_length = int (length chunk),
                        patterns = found,
                        checksum = uint (zlib_crc32 lib encoded),
                        quality_scores = calculate_quality_scores chunk,
                        compression_type = ''adaptive'',
                        error_rate = rate\<rparr>)))"

subsection \<open>\<^verbatim>\<open>compress\<close>\<close>

record compression_stats =
  original_size :: int
  compressed_size :: int
  compression_ratio :: number
  compression_time :: number
  algorithm :: string
  quality_score :: pyval
  stats_error_rate :: pyval

record genome_compressor =
  chunk_size :: int
  compression_stats :: "compression_stats list"

definition GenomeCompressor :: "int \<Rightarrow> genome_compressor" where
  "GenomeCompressor csize = \<lparr>chunk_size = csize, compression_stats = []\<rparr>"

text \<open>\<^verbatim>\<open>range(0, stop, step)\<close> for \<open>stop \<ge> 0\<close>: empty when the step is negative.\<close>

definition range_from_zero :: "nat \<Rightarrow> int \<Rightarrow> error + nat list" where
  "range_from_zero stop step =
     (if step = 0 then Inl RangeStepZero
      else if step < 0 then Inr []
      else Inr (map (\<lambda>k. k * nat step) [0..<(stop + nat step - 1) div nat step]))"

text \<open>The list comprehension of the chunks; it is built for a positive step only.\<close>

definition split_chunks :: "int \<Rightarrow> string \<Rightarrow> error + string list" where
  "split_chunks csize genome_data =
     (case range_from_zero (length genome_data) csize of
        Inl e \<Rightarrow> Inl e
      | Inr starts \<Rightarrow> Inr (map (\<lambda>i. substring genome_data i (i + nat csize)) starts))"

text \<open>
  \<^verbatim>\<open>executor.map\<close> returns the results in the order of the chunks, and reading them
  raises the exception of the first chunk that failed: the threads are not in the model.
\<close>

fun collect_results :: "(error + 'a) list \<Rightarrow> error + 'a list" where
  "collect_results [] = Inr []"
| "collect_results (r # rs) =
     (case r of
        Inl e \<Rightarrow> Inl e
      | Inr x \<Rightarrow> (case collect_results rs of Inl e \<Rightarrow> Inl e | Inr xs \<Rightarrow> Inr (x # xs)))"

text \<open>The lists \<^verbatim>\<open>compressed_chunks\<close> and \<^verbatim>\<open>metadata_list\<close> after the loop over the results.\<close>

definition compress_chunks ::
  "stdlib \<Rightarrow> int \<Rightarrow> string \<Rightarrow> error + (byte list list \<times> chunk_metadata list)" where
  "compress_chunks lib csize genome_data =
     (case split_chunks csize genome_data of
        Inl e \<Rightarrow> Inl e
      | Inr chunks \<Rightarrow>
          (case collect_results (map (compress_chunk lib) chunks) of
             Inl e \<Rightarrow> Inl e
           | Inr results \<Rightarrow> Inr (map fst results, map snd results)))"

text \<open>
  The arguments of \<^verbatim>\<open>CompressionStats(...)\<close> are evaluated in the order they are written:
  the ratio, then the mean quality score, then the mean error rate.
\<close>

definition mean_of :: "pyval list \<Rightarrow> nat \<Rightarrow> error + pyval" where
  "mean_of items n =
     (case py_sum items of
        Inl e \<Rightarrow> Inl e
      | Inr summed \<Rightarrow> py_truediv summed (Num (PyInt (int n))))"

definition build_stats ::
  "string \<Rightarrow> byte list \<Rightarrow> chunk_metadata list \<Rightarrow> error + compression_stats" where
  "build_stats genome_data encoded metadata_list =
     (case num_truediv (PyInt (int (length encoded))) (PyInt (int (length genome_data))) of
        Inl e \<Rightarrow> Inl e
      | Inr ratio \<Rightarrow>
          (case mean_of (map (\<lambda>m. IntList (quality_scores m)) metadata_list)
                        (length metadata_list) of
             Inl e \<Rightarrow> Inl e
           | Inr mean_quality \<Rightarrow>
               (case mean_of (map (\<lambda>m. Num (error_rate m)) metadata_list)
                             (length metadata_list) of
                  Inl e \<Rightarrow> Inl e
                | Inr mean_rate \<Rightarrow>
                    Inr \<lparr>original_size = int (length genome_data),
                         compressed_size = int (length encoded),
                         compression_ratio = ratio,
                         compression_time = PyFloat 0,
                         algorithm = ''adaptive'',
                         quality_score = mean_quality,
                         stats_error_rate = mean_rate\<rparr>)))"

definition compress ::
  "stdlib \<Rightarrow> genome_compressor \<Rightarrow> string
     \<Rightarrow> error + ((byte list \<times> chunk_metadata list) \<times> genome_compressor)" where
  "compress lib self genome_data =
     (if \<not> validate_sequence genome_data then Inl InvalidSequence
      else case compress_chunks lib (chunk_size self) genome_data of
             Inl e \<Rightarrow> Inl e
           | Inr (compressed_chunks, metadata_list) \<Rightarrow>
               (let final_compressed = concat compressed_chunks;
                    encoded = b64encode lib final_compressed
                in case build_stats genome_data encoded metadata_list of
                     Inl e \<Rightarrow> Inl e
                   | Inr stats \<Rightarrow>
                       Inr ((encoded, metadata_list),
                            self\<lparr>compression_stats := compression_stats self @ [stats]\<rparr>)))"

definition get_compression_stats :: "genome_compressor \<Rightarrow> compression_stats list" where
  "get_compression_stats self = compression_stats self"

subsection \<open>\<^verbatim>\<open>decompress\<close>\<close>

text \<open>\<^verbatim>\<open>s[i:j]\<close> for any two integers: a negative index counts from the end, and both are
  clipped to the list.\<close>

definition slice_index :: "nat \<Rightarrow> int \<Rightarrow> nat" where
  "slice_index n i = (if i < 0 then nat (max 0 (i + int n)) else min n (nat i))"

definition py_slice :: "'a list \<Rightarrow> int \<Rightarrow> int \<Rightarrow> 'a list" where
  "py_slice s i j = substring s (slice_index (length s) i) (slice_index (length s) j)"

text \<open>
  The state of the loop over the metadata: the chunks decompressed so far, the cursor into
  the decoded buffer, and the positions for which a warning was logged.
\<close>

record decoder_state =
  decompressed_chunks :: "byte list list"
  current_pos :: int
  warnings :: "int list"

definition chunk_data_at :: "byte list \<Rightarrow> int \<Rightarrow> chunk_metadata \<Rightarrow> byte list" where
  "chunk_data_at decoded pos metadata = py_slice decoded pos (pos + original_length metadata)"

definition decompress_step ::
  "stdlib \<Rightarrow> byte list \<Rightarrow> decoder_state \<Rightarrow> chunk_metadata \<Rightarrow> error + decoder_state" where
  "decompress_step lib decoded st metadata =
     (let len = original_length metadata;
          chunk_data = chunk_data_at decoded (current_pos st) metadata
      in case (if compression_type metadata = ''adaptive'' then zlib_decompress lib chunk_data
               else zlib_decompress lib chunk_data) of
           Inl e \<Rightarrow> Inl e
         | Inr decompressed \<Rightarrow>
             if uint (zlib_crc32 lib decompressed) \<noteq> checksum metadata
             then Inl (ChecksumMismatch (current_pos st))
             else Inr \<lparr>decompressed_chunks = decompressed_chunks st @ [decompressed],
                       current_pos = current_pos st + len,
                       warnings = (if low_quality_detected (quality_scores metadata)
                                   then warnings st @ [current_pos st] else warnings st)\<rparr>)"

fun decompress_loop ::
  "stdlib \<Rightarrow> byte list \<Rightarrow> decoder_state \<Rightarrow> chunk_metadata list \<Rightarrow> error + decoder_state" where
  "decompress_loop lib decoded st [] = Inr st"
| "decompress_loop lib decoded st (metadata # rest) =
     (case decompress_step lib decoded st metadata of
        Inl e \<Rightarrow> Inl e
      | Inr st' \<Rightarrow> decompress_loop lib decoded st' rest)"

definition decompress ::
  "stdlib \<Rightarrow> byte list \<Rightarrow> chunk_metadata list \<Rightarrow> error + (string \<times> int list)" where
  "decompress lib compressed_data metadata_list =
     (case b64decode lib compressed_data of
        Inl e \<Rightarrow> Inl e
      | Inr decoded \<Rightarrow>
          (case decompress_loop lib decoded
                  \<lparr>decompressed_chunks = [], current_pos = 0, warnings = []\<rparr> metadata_list of
             Inl e \<Rightarrow> Inl e
           | Inr st \<Rightarrow>
               (case collect_results (map (bytes_decode lib) (decompressed_chunks st)) of
                  Inl e \<Rightarrow> Inl e
                | Inr texts \<Rightarrow> Inr (concat texts, warnings st))))"

text \<open>\<^verbatim>\<open>decompress(*compress(s))\<close>.\<close>

definition round_trip :: "stdlib \<Rightarrow> genome_compressor \<Rightarrow> string \<Rightarrow> error + string" where
  "round_trip lib self s =
     (case compress lib self s of
        Inl e \<Rightarrow> Inl e
      | Inr ((blob, metadata_list), self') \<Rightarrow>
          (case decompress lib blob metadata_list of
             Inl e \<Rightarrow> Inl e
           | Inr (text, logged) \<Rightarrow> Inr text))"

subsection \<open>A library instance for concrete runs\<close>

text \<open>
  A small lossless codec in the place of \<^verbatim>\<open>zlib\<close>: run-length coding, every run of
  up to 255 equal bytes as its length and the byte. The checksum is CRC-32, bit by bit;
  the text encoding leaves the bytes as they are, and decoding accepts ASCII.
\<close>

fun rle_encode :: "byte list \<Rightarrow> byte list" where
  "rle_encode [] = []"
| "rle_encode (b # bs) =
     (case rle_encode bs of
        n # b' # rest \<Rightarrow> (if b' = b \<and> n < 255 then (n + 1) # b' # rest else 1 # b # n # b' # rest)
      | _ \<Rightarrow> [1, b])"

fun rle_decode :: "byte list \<Rightarrow> error + byte list" where
  "rle_decode [] = Inr []"
| "rle_decode [n] = Inl (LibraryError ''truncated stream'')"
| "rle_decode (n # b # rest) =
     (case rle_decode rest of Inl e \<Rightarrow> Inl e | Inr bs \<Rightarrow> Inr (replicate (unat n) b @ bs))"

definition crc32_shift :: "32 word \<Rightarrow> 32 word" where
  "crc32_shift c = (if bit c 0 then xor (drop_bit 1 c) 0xEDB88320 else drop_bit 1 c)"

definition crc32_byte :: "32 word \<Rightarrow> byte \<Rightarrow> 32 word" where
  "crc32_byte c b = (crc32_shift ^^ 8) (xor c (ucast b))"

definition crc32 :: "byte list \<Rightarrow> 32 word" where
  "crc32 bs = xor (foldl crc32_byte 0xFFFFFFFF bs) 0xFFFFFFFF"

definition ascii_decode :: "byte list \<Rightarrow> error + string" where
  "ascii_decode bs =
     (if list_all (\<lambda>b. b < 128) bs then Inr (map (\<lambda>b. char_of (unat b)) bs)
      else Inl (LibraryError ''UnicodeDecodeError''))"

definition run_length_lib :: stdlib where
  "run_length_lib =
     \<lparr>zlib_compress = rle_encode, zlib_decompress = rle_decode, zlib_crc32 = crc32,
      b64encode = (\<lambda>bs. bs), b64decode = Inr, bytes_decode = ascii_decode\<rparr>"

subsection \<open>Notions used in the statements and proofs\<close>

text \<open>A string of binary digits.\<close>

definition binary :: "string \<Rightarrow> bool" where
  "binary s = list_all (\<lambda>c. c = CHR ''0'' \<or> c = CHR ''1'') s"

text \<open>
  The cursor of the decoding loop when it reaches the entry \<open>k\<close> of the metadata list, and
  what the decompressor returns on the slice the loop takes there.
\<close>

definition cursor_at :: "chunk_metadata list \<Rightarrow> nat \<Rightarrow> int" where
  "cursor_at mds k = sum_list (map original_length (take k mds))"

definition inflated_at :: "stdlib \<Rightarrow> byte list \<Rightarrow> chunk_metadata list \<Rightarrow> nat \<Rightarrow> error + byte list" where
  "inflated_at lib decoded mds k =
     zlib_decompress lib (chunk_data_at decoded (cursor_at mds k) (mds ! k))"

text \<open>The positions recorded in a pattern map for a key: none for a key that is missing.\<close>

definition recorded :: "pattern_map \<Rightarrow> string \<Rightarrow> nat list" where
  "recorded d k = (case map_of d k of None \<Rightarrow> [] | Some v \<Rightarrow> v)"

section \<open>Properties\<close>

lemma quality_score_at_bounds: "30 \<le> quality_score_at s i \<and> quality_score_at s i \<le> 38"
  by (simp add: quality_score_at_def Let_def)

lemma low_quality_calculated: "\<not> low_quality_detected (calculate_quality_scores s)"
proof -
  have "\<not> quality_score_at s i < 30" for i
    using quality_score_at_bounds [of s i] by simp
  then show ?thesis
    by (simp add: low_quality_detected_def calculate_quality_scores_def quality_threshold_def
        list_ex_iff)
qed

subsection \<open>Bit strings\<close>

lemma binary_append [simp]: "binary (xs @ ys) \<longleftrightarrow> binary xs \<and> binary ys"
  by (simp add: binary_def)

lemma binary_Nil [simp]: "binary []"
  by (simp add: binary_def)

lemma binary_replicate_zero [simp]: "binary (replicate n (CHR ''0''))"
  by (simp add: binary_def list_all_iff)

lemma binary_concat: "(\<And>x. x \<in> set xs \<Longrightarrow> binary x) \<Longrightarrow> binary (concat xs)"
  by (induction xs) simp_all

lemma binary_encoding_get [simp]: "binary (encoding_get c)"
  by (simp add: encoding_get_def binary_def)

lemma length_encoding_get [simp]: "length (encoding_get c) = 2"
  by (simp add: encoding_get_def)

lemma binary_bin_digits [simp]: "binary (bin_digits n)"
proof (induction n rule: bin_digits.induct)
  case (1 n)
  then show ?case
    by (subst bin_digits.simps) (simp add: bin_digit_def binary_def)
qed

lemma length_bin_digits: "0 < k \<Longrightarrow> n < 2 ^ k \<Longrightarrow> length (bin_digits n) \<le> k"
proof (induction n arbitrary: k rule: bin_digits.induct)
  case (1 n)
  show ?case
  proof (cases "n < 2")
    case True
    then show ?thesis using "1.prems" by (subst bin_digits.simps) simp
  next
    case False
    then obtain j where k: "k = Suc j" and j: "0 < j"
      using "1.prems" by (cases k; cases "k - 1") auto
    have "n div 2 < 2 ^ j"
      using "1.prems" k by (simp add: less_mult_imp_div_less mult.commute)
    then have "length (bin_digits (n div 2)) \<le> j"
      using "1.IH" False j by simp
    then show ?thesis using False k by (subst bin_digits.simps) simp
  qed
qed

lemma binary_value_snoc [simp]: "binary_value (xs @ [c]) = 2 * binary_value xs + bit_value c"
  by (simp add: binary_value_def)

lemma binary_value_Nil [simp]: "binary_value [] = 0"
  by (simp add: binary_value_def)

lemma binary_value_append:
  "binary_value (xs @ ys) = binary_value xs * 2 ^ length ys + binary_value ys"
  by (induction ys rule: rev_induct) (simp_all add: algebra_simps flip: append_assoc)

lemma binary_value_bounds: "0 \<le> binary_value s \<and> binary_value s < 2 ^ length s"
  by (induction s rule: rev_induct) (auto simp add: bit_value_def)

lemma binary_value_zeros [simp]: "binary_value (replicate n (CHR ''0'')) = 0"
proof (induction n)
  case (Suc n)
  have "replicate (Suc n) (CHR ''0'') = replicate n (CHR ''0'') @ [CHR ''0'']"
    by (simp add: replicate_append_same)
  then show ?case using Suc by (simp add: bit_value_def del: replicate_Suc)
qed simp

lemma binary_value_bin_digits [simp]: "binary_value (bin_digits n) = int n"
proof (induction n rule: bin_digits.induct)
  case (1 n)
  show ?case
  proof (cases "n < 2")
    case True
    then have "n = 0 \<or> n = 1" by auto
    then show ?thesis
      by (subst bin_digits.simps) (auto simp add: bin_digit_def bit_value_def binary_value_def)
  next
    case False
    then show ?thesis
      using "1.IH" by (subst bin_digits.simps) (simp add: bin_digit_def bit_value_def zdiv_int; presburger)
  qed
qed

lemma format_08b_field:
  assumes "0 \<le> q" "q < 256"
  shows "length (format_08b q) = 8" and "binary (format_08b q)"
    and "binary_value (format_08b q) = q"
proof -
  have "nat q < 2 ^ 8" using assms by simp
  then have le: "length (bin_digits (nat q)) \<le> 8"
    by (rule length_bin_digits [rotated]) simp
  show "length (format_08b q) = 8" using assms le by (simp add: format_08b_def Let_def)
  show "binary (format_08b q)" using assms by (simp add: format_08b_def Let_def)
  show "binary_value (format_08b q) = q"
    using assms by (simp add: format_08b_def Let_def binary_value_append)
qed

lemma quality_scores_range:
  "q \<in> set (calculate_quality_scores s) \<Longrightarrow> 30 \<le> q \<and> q \<le> 38"
  using quality_score_at_bounds by (auto simp add: calculate_quality_scores_def)

lemma length_concat_fixed:
  "(\<And>x. x \<in> set xs \<Longrightarrow> length x = k) \<Longrightarrow> length (concat xs) = k * length xs"
  by (induction xs) simp_all

lemma combined_bits_quality:
  "binary (combined_bits s (calculate_quality_scores s)) \<and>
   length (combined_bits s (calculate_quality_scores s)) = 10 * length s"
proof -
  have f: "length (format_08b q) = 8 \<and> binary (format_08b q)"
    if "q \<in> set (calculate_quality_scores s)" for q
    using quality_scores_range [OF that] format_08b_field [of q] by simp
  have "length (concat (map format_08b (calculate_quality_scores s)))
      = 8 * length (map format_08b (calculate_quality_scores s))"
    by (rule length_concat_fixed) (use f in auto)
  moreover have "length (concat (map encoding_get (upper s))) = 2 * length (map encoding_get (upper s))"
    by (rule length_concat_fixed) auto
  moreover have "binary (concat (map format_08b (calculate_quality_scores s)))"
    by (rule binary_concat) (use f in auto)
  moreover have "binary (concat (map encoding_get (upper s)))"
    by (rule binary_concat) auto
  ultimately show ?thesis
    by (simp add: combined_bits_def upper_def calculate_quality_scores_def)
qed

lemma power_256_bits: "(2::int) ^ n \<le> 256 ^ ((n + 7) div 8)"
proof -
  have "(256::int) ^ ((n + 7) div 8) = 2 ^ (8 * ((n + 7) div 8))"
    by (simp add: power_mult)
  moreover have "n \<le> 8 * ((n + 7) div 8)" by presburger
  ultimately show ?thesis by (simp add: power_increasing)
qed

lemma encode_sequence_eq:
  assumes "s \<noteq> []"
  shows "encode_sequence s =
    Inr (map (\<lambda>k. of_int (binary_value (combined_bits s (calculate_quality_scores s))
                  div 256 ^ ((10 * length s + 7) div 8 - 1 - k))) [0..<(10 * length s + 7) div 8])"
proof -
  let ?c = "combined_bits s (calculate_quality_scores s)"
  have c: "binary ?c" "length ?c = 10 * length s"
    using combined_bits_quality [of s] by simp_all
  then have ne: "?c \<noteq> []" using assms by auto
  have "binary_value ?c < 2 ^ length ?c" "0 \<le> binary_value ?c"
    using binary_value_bounds [of ?c] by simp_all
  then have "binary_value ?c < 256 ^ ((length ?c + 7) div 8)" "\<not> binary_value ?c < 0"
    using power_256_bits [of "length ?c"] by linarith+
  moreover have "encode_sequence s =
      (case int_base2 ?c of Inl e \<Rightarrow> Inl e | Inr v \<Rightarrow> to_bytes_big v ((length ?c + 7) div 8))"
    unfolding encode_sequence_def Let_def combined_bits_def ..
  moreover have "int_base2 ?c = Inr (binary_value ?c)"
    using c ne by (simp add: int_base2_def binary_def)
  ultimately show ?thesis
    using c by (simp add: to_bytes_big_def)
qed

subsection \<open>Chunks\<close>

lemma calculate_error_rate_nonempty:
  "s \<noteq> [] \<Longrightarrow> \<exists>rate. calculate_error_rate s = Inr rate"
  by (simp add: calculate_error_rate_def num_truediv_def is_zero_def Let_def split: number.split prod.split)

lemma compress_chunk_nonempty:
  assumes "chunk \<noteq> []"
  shows "\<exists>compressed encoded rate.
           encode_sequence chunk = Inr encoded \<and>
           compress_chunk lib chunk =
             Inr (compressed,
                  \<lparr>original_length = int (length chunk), patterns = find_patterns chunk,
                   checksum = uint (zlib_crc32 lib encoded),
                   quality_scores = calculate_quality_scores chunk,
                   compression_type = ''adaptive'', error_rate = rate\<rparr>)"
proof -
  obtain encoded where e: "encode_sequence chunk = Inr encoded"
    using encode_sequence_eq [OF assms] by blast
  obtain rate where r: "calculate_error_rate chunk = Inr rate"
    using calculate_error_rate_nonempty [OF assms] by blast
  show ?thesis
    using e r by (simp add: compress_chunk_def Let_def)
qed

lemma collect_results_map:
  "(\<And>x. x \<in> set xs \<Longrightarrow> \<exists>y. f x = Inr y) \<Longrightarrow>
   \<exists>ys. collect_results (map f xs) = Inr ys \<and> length ys = length xs \<and>
        (\<forall>k<length xs. f (xs ! k) = Inr (ys ! k))"
proof (induction xs)
  case Nil
  show ?case by simp
next
  case (Cons x xs)
  obtain y where y: "f x = Inr y" using Cons.prems by auto
  obtain ys where ys: "collect_results (map f xs) = Inr ys" "length ys = length xs"
    "\<forall>k<length xs. f (xs ! k) = Inr (ys ! k)"
    using Cons by auto
  have "\<forall>k<length (x # xs). f ((x # xs) ! k) = Inr ((y # ys) ! k)"
    using y ys(3) by (auto simp add: nth_Cons split: nat.split)
  then show ?case using y ys by auto
qed

lemma ceiling_div_nat:
  assumes "0 < c"
  shows "int ((n + c - 1) div c) = \<lceil>real n / real c\<rceil>"
proof -
  have "\<lceil>real n / real c\<rceil> = \<lceil>real_of_int (int n) / real_of_int (int c)\<rceil>" by simp
  also have "\<dots> = - (- int n div int c)" by (rule ceiling_divide_eq_div)
  also have "\<dots> = int ((n + c - 1) div c)"
  proof -
    define q r where "q = n div c" and "r = n mod c"
    have n: "n = q * c + r" and r: "r < c" using assms by (simp_all add: q_def r_def)
    show ?thesis
    proof (cases "r = 0")
      case True
      then have eq: "n + c - 1 = q * c + (c - 1)" using n assms by simp
      have "(q * c + (c - 1)) div c = q + (c - 1) div c"
        by (rule div_mult_self3) (use assms in simp)
      then have "(n + c - 1) div c = q" using assms eq by (simp only: div_less diff_less zero_less_one add_0_right)
      moreover have "- int n = (- int q) * int c" using True n by simp
      then have "- int n div int c = - int q" using assms by (simp only: nonzero_mult_div_cancel_right)
      ultimately show ?thesis by simp
    next
      case False
      have eq: "n + c - 1 = (q + 1) * c + (r - 1)" using n False by (simp add: algebra_simps)
      have "((q + 1) * c + (r - 1)) div c = (q + 1) + (r - 1) div c"
        by (rule div_mult_self3) (use assms in simp)
      moreover have "(r - 1) div c = 0" using r by simp
      ultimately have up: "(n + c - 1) div c = q + 1" using eq by (simp only: add_0_right)
      have neg: "- int n = (- int q - 1) * int c + (int c - int r)"
        using n by (simp add: algebra_simps)
      have "((- int q - 1) * int c + (int c - int r)) div int c
          = (- int q - 1) + (int c - int r) div int c"
        by (rule div_mult_self3) (use assms in simp)
      moreover have "(int c - int r) div int c = 0"
        using r False by (simp add: div_pos_pos_trivial)
      ultimately have "- int n div int c = - int q - 1"
        using neg by (simp only: add_0_right)
      then show ?thesis using up by simp
    qed
  qed
  finally show ?thesis by simp
qed

lemma range_from_zero_pos:
  "0 < c \<Longrightarrow> range_from_zero n (int c) = Inr (map (\<lambda>k. k * c) [0..<(n + c - 1) div c])"
  by (simp add: range_from_zero_def)

lemma split_chunks_pos:
  "0 < c \<Longrightarrow> split_chunks (int c) s =
     Inr (map (\<lambda>k. substring s (k * c) (k * c + c)) [0..<(length s + c - 1) div c])"
  by (simp add: split_chunks_def range_from_zero_pos comp_def)

lemma chunk_start_in_range:
  assumes "0 < (c::nat)" "k < (n + c - 1) div c"
  shows "k * c < n"
proof (rule ccontr)
  assume "\<not> k * c < n"
  then have "n + c - 1 < k * c + c" using assms(1) by linarith
  then have "n + c - 1 < (k + 1) * c" by simp
  then have "(n + c - 1) div c < k + 1"
    using assms(1) by (simp add: less_mult_imp_div_less)
  then show False using assms(2) by simp
qed

lemma concat_chunks_take:
  "concat (map (\<lambda>k. substring s (k * c) (k * c + c)) [0..<m]) = take (m * c) s"
proof (induction m)
  case 0
  show ?case by simp
next
  case (Suc m)
  have "take (m * c) s @ take c (drop (m * c) s) = take (m * c + c) s"
    by (simp add: take_add)
  then show ?case using Suc by (simp add: substring_def add.commute)
qed

lemma chunks_cover:
  assumes "0 < c"
  shows "length s \<le> ((length s + c - 1) div c) * c"
proof -
  have "length s + c - 1 < ((length s + c - 1) div c) * c + c"
    using assms by (metis add.commute div_mult_mod_eq mod_less_divisor add_less_cancel_left mult.commute)
  then show ?thesis using assms by simp
qed

lemma sum_list_lengths_concat: "sum_list (map (\<lambda>x. int (length x)) xs) = int (length (concat xs))"
  by (induction xs) simp_all

lemma validate_sequence_length: "validate_sequence s \<Longrightarrow> 100 \<le> length s"
  by (simp add: validate_sequence_def split: if_splits)

lemma py_sum_lists: "py_sum (IntList q # items) = Inl TypeError"
  by (simp add: py_sum_def)

lemma compress_chunks_pos:
  assumes "0 < c"
  shows "\<exists>compressed mds.
     compress_chunks lib (int c) s = Inr (compressed, mds) \<and>
     length compressed = (length s + c - 1) div c \<and>
     length mds = (length s + c - 1) div c \<and>
     (\<forall>k<(length s + c - 1) div c.
        compress_chunk lib (substring s (k * c) (k * c + c)) = Inr (compressed ! k, mds ! k))"
proof -
  let ?m = "(length s + c - 1) div c"
  let ?chunks = "map (\<lambda>k. substring s (k * c) (k * c + c)) [0..<?m]"
  have ne: "\<exists>y. compress_chunk lib x = Inr y" if "x \<in> set ?chunks" for x
  proof -
    from that obtain k where "k < length ?chunks" "?chunks ! k = x"
      unfolding in_set_conv_nth by blast
    then have k: "k < ?m" "x = substring s (k * c) (k * c + c)"
      by simp_all
    have "k * c < length s" using chunk_start_in_range [OF assms k(1)] .
    then have "x \<noteq> []" using k(2) assms by (simp add: substring_def)
    then show ?thesis using compress_chunk_nonempty [of x lib] by blast
  qed
  obtain ys where ys: "collect_results (map (compress_chunk lib) ?chunks) = Inr ys"
    "length ys = length ?chunks"
    "\<forall>k<length ?chunks. compress_chunk lib (?chunks ! k) = Inr (ys ! k)"
    using collect_results_map [of ?chunks "compress_chunk lib"] ne by blast
  have "compress_chunks lib (int c) s = Inr (map fst ys, map snd ys)"
    using ys(1) assms by (simp add: compress_chunks_def split_chunks_pos)
  moreover have "\<forall>k<?m. compress_chunk lib (substring s (k * c) (k * c + c))
      = Inr (map fst ys ! k, map snd ys ! k)"
    using ys(2,3) by simp
  ultimately show ?thesis using ys(2) by simp
qed

lemma compress_chunk_original_length:
  "compress_chunk lib chunk = Inr (compressed, m) \<Longrightarrow> original_length m = int (length chunk)"
  by (auto simp add: compress_chunk_def Let_def split: sum.splits)

lemma compress_chunk_quality_scores:
  "compress_chunk lib chunk = Inr (compressed, m) \<Longrightarrow>
     quality_scores m = calculate_quality_scores chunk"
  by (auto simp add: compress_chunk_def Let_def split: sum.splits)

lemma compress_chunk_checksum:
  "compress_chunk lib chunk = Inr (compressed, m) \<Longrightarrow>
     \<exists>encoded. encode_sequence chunk = Inr encoded \<and> checksum m = uint (zlib_crc32 lib encoded)"
  by (auto simp add: compress_chunk_def Let_def split: sum.splits)

lemma build_stats_TypeError:
  assumes "genome_data \<noteq> []" "metadata_list \<noteq> []"
  shows "build_stats genome_data encoded metadata_list = Inl TypeError"
proof -
  obtain m ms where "metadata_list = m # ms" using assms(2) by (cases metadata_list) auto
  then have "mean_of (map (\<lambda>m. IntList (quality_scores m)) metadata_list) (length metadata_list)
      = Inl TypeError"
    by (simp add: mean_of_def py_sum_lists)
  moreover have "\<exists>ratio. num_truediv (PyInt (int (length encoded))) (PyInt (int (length genome_data)))
      = Inr ratio"
    using assms(1) by (simp add: num_truediv_def is_zero_def)
  ultimately show ?thesis by (auto simp add: build_stats_def)
qed

lemma compress_valid_TypeError:
  assumes "validate_sequence s" "0 < chunk_size self"
  shows "compress lib self s = Inl TypeError"
proof -
  obtain c where c: "chunk_size self = int c" "0 < c"
    using assms(2) by (metis nat_0_less_mult_iff zero_less_nat_eq int_nat_eq less_imp_le mult.right_neutral zero_less_one) 
  have len: "100 \<le> length s" using validate_sequence_length [OF assms(1)] .
  obtain compressed mds where r: "compress_chunks lib (int c) s = Inr (compressed, mds)"
    "length mds = (length s + c - 1) div c"
    using compress_chunks_pos [OF c(2), of lib s] by blast
  have "length s \<le> length mds * c" using chunks_cover [OF c(2), of s] r(2) by simp
  then have "mds \<noteq> []" using len by auto
  moreover have "s \<noteq> []" using len by auto
  ultimately show ?thesis
    using assms(1) r(1) c(1) by (simp add: compress_def build_stats_TypeError)
qed

lemma compress_never_returns: "compress lib self s \<noteq> Inr r"
proof (cases "validate_sequence s")
  case False
  then show ?thesis by (simp add: compress_def)
next
  case True
  then have len: "100 \<le> length s" by (rule validate_sequence_length)
  consider "0 < chunk_size self" | "chunk_size self = 0" | "chunk_size self < 0" by linarith
  then show ?thesis
  proof cases
    case 1
    then show ?thesis using compress_valid_TypeError [OF True 1] by simp
  next
    case 2
    then show ?thesis
      using True by (simp add: compress_def compress_chunks_def split_chunks_def range_from_zero_def)
  next
    case 3
    then have "compress_chunks lib (chunk_size self) s = Inr ([], [])"
      by (simp add: compress_chunks_def split_chunks_def range_from_zero_def)
    moreover have "build_stats s encoded [] = Inl ZeroDivisionError" for encoded
      using len by (simp add: build_stats_def mean_of_def py_sum_def num_truediv_def is_zero_def)
    ultimately show ?thesis using True by (simp add: compress_def)
  qed
qed

lemma upper_char_A [simp]: "upper_char (CHR ''A'') = CHR ''A''"
  by (simp add: upper_char_def)

lemma valid_A100: "validate_sequence (replicate 100 (CHR ''A''))"
  by (simp add: validate_sequence_def match_ACGTN_def upper_def list_all_iff)

lemma valid_A99_newline: "validate_sequence (replicate 99 (CHR ''A'') @ [CHR 0x0A])"
  by (simp add: validate_sequence_def match_ACGTN_def upper_def upper_char_def list_all_iff)

lemma invalid_empty: "\<not> validate_sequence ''''"
  by (simp add: validate_sequence_def match_ACGTN_def upper_def)

lemma invalid_123: "\<not> validate_sequence ''123''"
  by (simp add: validate_sequence_def match_ACGTN_def upper_def upper_char_def)

lemma compress_InvalidSequence_iff:
  "compress lib self s = Inl InvalidSequence \<longleftrightarrow> \<not> validate_sequence s"
proof (cases "validate_sequence s")
  case False
  then show ?thesis by (simp add: compress_def)
next
  case True
  then have len: "100 \<le> length s" by (rule validate_sequence_length)
  consider "0 < chunk_size self" | "chunk_size self = 0" | "chunk_size self < 0" by linarith
  then have "compress lib self s \<noteq> Inl InvalidSequence"
  proof cases
    case 1
    then show ?thesis using compress_valid_TypeError [OF True 1] by simp
  next
    case 2
    then show ?thesis
      using True by (simp add: compress_def compress_chunks_def split_chunks_def range_from_zero_def)
  next
    case 3
    then have "compress_chunks lib (chunk_size self) s = Inr ([], [])"
      by (simp add: compress_chunks_def split_chunks_def range_from_zero_def)
    moreover have "build_stats s encoded [] = Inl ZeroDivisionError" for encoded
      using len by (simp add: build_stats_def mean_of_def py_sum_def num_truediv_def is_zero_def)
    ultimately show ?thesis using True by (simp add: compress_def)
  qed
  then show ?thesis using True by simp
qed

lemma upper_char_line_feed: "upper_char c = CHR 0x0A \<longleftrightarrow> c = CHR 0x0A"
proof -
  have "\<not> (97 \<le> (of_char c :: nat) \<and> (of_char c :: nat) \<le> 122)" if "c = CHR 0x0A"
    using that by simp
  moreover have "char_of ((of_char c :: nat) - 32) \<noteq> CHR 0x0A"
    if "97 \<le> (of_char c :: nat)" "(of_char c :: nat) \<le> 122"
  proof
    assume "char_of ((of_char c :: nat) - 32) = CHR 0x0A"
    then have "of_char (char_of ((of_char c :: nat) - 32) :: char) = (of_char (CHR 0x0A) :: nat)"
      by simp
    then have "((of_char c :: nat) - 32) mod 256 = 10" by simp
    then show False using that by simp
  qed
  ultimately show ?thesis by (auto simp add: upper_char_def Let_def)
qed

lemma match_ACGTN_plain:
  "s \<noteq> [] \<Longrightarrow> list_all (\<lambda>c. c \<in> set ''ACGTN'') s \<Longrightarrow> match_ACGTN s"
proof -
  assume ne: "s \<noteq> []" and all: "list_all (\<lambda>c. c \<in> set ''ACGTN'') s"
  then have "last s \<in> set ''ACGTN''" by (simp add: list_all_iff)
  then have "last s \<noteq> CHR 0x0A" by auto
  then show ?thesis using ne all by (simp add: match_ACGTN_def)
qed

lemma validate_sequence_admits:
  "100 \<le> length s \<Longrightarrow> list_all (\<lambda>c. upper_char c \<in> set ''ACGTN'') s \<Longrightarrow> validate_sequence s"
proof -
  assume len: "100 \<le> length s" and all: "list_all (\<lambda>c. upper_char c \<in> set ''ACGTN'') s"
  have "upper s \<noteq> []" using len by (auto simp add: upper_def)
  moreover have "list_all (\<lambda>c. c \<in> set ''ACGTN'') (upper s)"
    using all by (simp add: upper_def list_all_iff)
  ultimately have "match_ACGTN (upper s)" by (rule match_ACGTN_plain)
  then show ?thesis using len by (simp add: validate_sequence_def)
qed

subsection \<open>Claims on \<^verbatim>\<open>compress\<close> and the round trip\<close>

text \<open>
  Claim C2 says that \<^verbatim>\<open>compress\<close> completes on every valid sequence, returns the pair of
  blob and metadata list, and appends one record to the statistics. The code does not: the
  mean quality score is \<^verbatim>\<open>sum(m['quality_scores'] for m in metadata_list)\<close>, a sum of
  lists started at the number 0, and adding a list to a number raises \<^verbatim>\<open>TypeError\<close>.
  On the 100 bases \<^verbatim>\<open>'A' * 100\<close>, with the default chunk size, \<^verbatim>\<open>compress\<close> raises
  \<^verbatim>\<open>TypeError\<close>; and for no compressor state and no input, valid or not, does it return.
\<close>

theorem compress_always_raises:
  "compress lib (GenomeCompressor 1048576) (replicate 100 (CHR ''A'')) = Inl TypeError \<and>
   (\<forall>self s result. compress lib self s \<noteq> Inr result)"
proof -
  have "compress lib (GenomeCompressor 1048576) (replicate 100 (CHR ''A'')) = Inl TypeError"
    by (rule compress_valid_TypeError [OF valid_A100]) (simp add: GenomeCompressor_def)
  then show ?thesis using compress_never_returns by blast
qed

text \<open>
  Claim C1 is the round-trip law: \<^verbatim>\<open>decompress(*compress(s))\<close> returns \<open>s\<close> for every
  valid \<open>s\<close>, at least for an input of one chunk. In the code the composition raises
  \<^verbatim>\<open>TypeError\<close> on \<^verbatim>\<open>'A' * 100\<close> (one chunk, default chunk size), and it returns \<open>s\<close>
  for no input at all, since \<^verbatim>\<open>compress\<close> never returns a pair.
\<close>

theorem round_trip_fails:
  "round_trip lib (GenomeCompressor 1048576) (replicate 100 (CHR ''A'')) = Inl TypeError \<and>
   (\<forall>self s. round_trip lib self s \<noteq> Inr s)"
proof -
  have "compress lib (GenomeCompressor 1048576) (replicate 100 (CHR ''A'')) = Inl TypeError"
    by (rule compress_valid_TypeError [OF valid_A100]) (simp add: GenomeCompressor_def)
  then have "round_trip lib (GenomeCompressor 1048576) (replicate 100 (CHR ''A'')) = Inl TypeError"
    by (simp add: round_trip_def)
  moreover have "round_trip lib self s \<noteq> Inr s" for self s
    using compress_never_returns [of lib self s]
    by (cases "compress lib self s") (auto simp add: round_trip_def)
  ultimately show ?thesis by blast
qed

text \<open>
  Claim C3 says that \<^verbatim>\<open>compress\<close> fails with InvalidSequence exactly when the input is
  empty, shorter than 100 symbols, or holds a character outside \<^verbatim>\<open>A C G T N\<close>. The code
  admits a sequence that ends in a line feed: on 99 bases \<^verbatim>\<open>A\<close> followed by a line feed
  the validator answers \<^verbatim>\<open>True\<close>, although the line feed is outside the alphabet, and
  \<^verbatim>\<open>compress\<close> goes on to the statistics, where it raises \<^verbatim>\<open>TypeError\<close>, not
  InvalidSequence.
\<close>

theorem trailing_newline_admitted:
  "validate_sequence (replicate 99 (CHR ''A'') @ [CHR 0x0A]) \<and>
   CHR 0x0A \<notin> set ''ACGTN'' \<and>
   compress lib (GenomeCompressor 1048576) (replicate 99 (CHR ''A'') @ [CHR 0x0A]) = Inl TypeError"
proof -
  have "compress lib (GenomeCompressor 1048576) (replicate 99 (CHR ''A'') @ [CHR 0x0A]) = Inl TypeError"
    by (rule compress_valid_TypeError [OF valid_A99_newline]) (simp add: GenomeCompressor_def)
  then show ?thesis using valid_A99_newline by simp
qed

lemma validate_sequence_iff:
  "validate_sequence s \<longleftrightarrow>
     100 \<le> length s \<and>
     (list_all (\<lambda>c. upper_char c \<in> set ''ACGTN'') s \<or>
      list_all (\<lambda>c. upper_char c \<in> set ''ACGTN'') (butlast s) \<and> last s = CHR 0x0A)"
proof (cases "100 \<le> length s")
  case False
  then show ?thesis by (simp add: validate_sequence_def)
next
  case True
  then have ne: "s \<noteq> []" "butlast s \<noteq> []" by (auto simp add: butlast_conv_take)
  have last: "last (upper s) = upper_char (last s)"
    using ne by (simp add: upper_def last_map)
  have bl: "butlast (upper s) = upper (butlast s)"
    by (simp add: upper_def map_butlast)
  have all: "list_all (\<lambda>c. c \<in> set ''ACGTN'') (upper t) \<longleftrightarrow>
      list_all (\<lambda>c. upper_char c \<in> set ''ACGTN'') t" for t
    by (simp add: upper_def list_all_iff)
  show ?thesis
  proof (cases "last s = CHR 0x0A")
    case nl: True
    have "upper_char (CHR 0x0A) \<notin> set ''ACGTN''" by (simp add: upper_char_def)
    then have "\<not> list_all (\<lambda>c. upper_char c \<in> set ''ACGTN'') s"
      using nl last_in_set [OF ne(1)] unfolding list_all_iff by metis
    then show ?thesis
      using True nl ne last bl all [of "butlast s"]
      by (simp add: validate_sequence_def match_ACGTN_def upper_char_line_feed upper_def)
  next
    case nl: False
    then show ?thesis
      using True ne last all [of s]
      by (simp add: validate_sequence_def match_ACGTN_def upper_char_line_feed upper_def)
  qed
qed

subsection \<open>Claims on the quality estimator\<close>

text \<open>
  Claim C6: for every sequence the quality estimator returns a list as long as the
  sequence; the score at a position is 30, plus 5 when the base equals the one before it,
  plus 3 when it equals the one two positions before it, capped at 40, and it is never
  below 30.
\<close>

theorem quality_scores_pointwise:
  "length (calculate_quality_scores s) = length s \<and>
   (\<forall>i<length s.
      calculate_quality_scores s ! i =
        min 40 (30 + (if 0 < i \<and> s ! i = s ! (i - 1) then 5 else 0)
                   + (if 1 < i \<and> s ! i = s ! (i - 2) then 3 else 0)) \<and>
      30 \<le> calculate_quality_scores s ! i \<and> calculate_quality_scores s ! i \<le> 40)"
  by (simp add: calculate_quality_scores_def quality_score_at_def Let_def)

theorem quality_scores_pointwise_witness:
  "(2::nat) < length ''AAAC'' \<and> length (calculate_quality_scores ''AAAC'') = 4 \<and>
   calculate_quality_scores ''AAAC'' ! 2 = 38 \<and> calculate_quality_scores ''AAAC'' ! 3 = 30"
proof -
  have two: "(2::nat) < length ''AAAC''" and three: "(3::nat) < length ''AAAC''"
    by simp_all
  note all = quality_scores_pointwise [of "''AAAC''"]
  from all have len: "length (calculate_quality_scores ''AAAC'') = length ''AAAC''"
    by (rule conjunct1)
  from all two have "calculate_quality_scores ''AAAC'' ! 2 =
      min 40 (30 + (if 0 < (2::nat) \<and> ''AAAC'' ! 2 = ''AAAC'' ! (2 - 1) then 5 else 0)
                 + (if 1 < (2::nat) \<and> ''AAAC'' ! 2 = ''AAAC'' ! (2 - 2) then 3 else 0))"
    by blast
  moreover from all three have "calculate_quality_scores ''AAAC'' ! 3 =
      min 40 (30 + (if 0 < (3::nat) \<and> ''AAAC'' ! 3 = ''AAAC'' ! (3 - 1) then 5 else 0)
                 + (if 1 < (3::nat) \<and> ''AAAC'' ! 3 = ''AAAC'' ! (3 - 2) then 3 else 0))"
    by blast
  ultimately show ?thesis using len by (simp add: numeral_2_eq_2 numeral_3_eq_3)
qed

lemma decompress_step_warnings:
  "decompress_step lib decoded st m = Inr st' \<Longrightarrow> \<not> low_quality_detected (quality_scores m) \<Longrightarrow>
     warnings st' = warnings st"
  by (auto simp add: decompress_step_def Let_def split: sum.splits if_splits)

lemma decompress_loop_warnings:
  "decompress_loop lib decoded st mds = Inr st' \<Longrightarrow>
   (\<And>m. m \<in> set mds \<Longrightarrow> \<not> low_quality_detected (quality_scores m)) \<Longrightarrow>
     warnings st' = warnings st"
proof (induction mds arbitrary: st)
  case Nil
  then show ?case by simp
next
  case (Cons m mds)
  from Cons.prems(1) obtain st1 where step: "decompress_step lib decoded st m = Inr st1"
    and rest: "decompress_loop lib decoded st1 mds = Inr st'"
    by (auto split: sum.splits)
  have "warnings st1 = warnings st"
    using step Cons.prems(2) by (auto intro: decompress_step_warnings)
  moreover have "warnings st' = warnings st1"
    using rest Cons.prems(2) by (auto intro: Cons.IH)
  ultimately show ?case by simp
qed

lemma decompress_warnings:
  assumes "decompress lib blob mds = Inr (text, logged)"
    and "\<And>m. m \<in> set mds \<Longrightarrow> \<not> low_quality_detected (quality_scores m)"
  shows "logged = []"
proof -
  from assms(1) obtain decoded st where
    "decompress_loop lib decoded
       \<lparr>decompressed_chunks = [], current_pos = 0, warnings = []\<rparr> mds = Inr st"
    and "logged = warnings st"
    by (auto simp add: decompress_def split: sum.splits)
  then show ?thesis using decompress_loop_warnings [OF _ assms(2)] by fastforce
qed

text \<open>
  Claim C10: every score of the quality estimator lies in the interval from 30 to 38 (the
  cap of 40 is never reached), so on the \<^verbatim>\<open>quality_scores\<close> that \<^verbatim>\<open>_compress_chunk\<close>
  stores, the test of the low-quality warning in \<^verbatim>\<open>decompress\<close> is false: a step of the
  decoding loop over such metadata logs nothing, and a \<^verbatim>\<open>decompress\<close> that returns has
  logged no warning.
\<close>

theorem low_quality_warning_unreachable:
  "(\<forall>q \<in> set (calculate_quality_scores s). 30 \<le> q \<and> q \<le> 38) \<and>
   (compress_chunk lib chunk = Inr (compressed, m) \<longrightarrow>
      \<not> low_quality_detected (quality_scores m) \<and>
      (decompress_step lib decoded st m = Inr st' \<longrightarrow> warnings st' = warnings st)) \<and>
   ((\<forall>m \<in> set mds. \<exists>chunk compressed. compress_chunk lib chunk = Inr (compressed, m)) \<and>
    decompress lib blob mds = Inr (result, logged) \<longrightarrow> logged = [])"
proof -
  have produced: "\<not> low_quality_detected (quality_scores m)"
    if "compress_chunk lib chunk = Inr (compressed, m)" for chunk compressed m
    using compress_chunk_quality_scores [OF that] low_quality_calculated by simp
  have "\<forall>q \<in> set (calculate_quality_scores s). 30 \<le> q \<and> q \<le> 38"
    using quality_scores_range by blast
  moreover have "logged = []"
    if "\<forall>m \<in> set mds. \<exists>chunk compressed. compress_chunk lib chunk = Inr (compressed, m)"
      and "decompress lib blob mds = Inr (result, logged)"
    using that produced decompress_warnings [OF that(2)] by blast
  ultimately show ?thesis
    using produced decompress_step_warnings by blast
qed

lemma run_AAAAAAAA_encode:
  "encode_sequence ''AAAAAAAA'' = Inr [0, 0, 30, 35, 38, 38, 38, 38, 38, 38]"
  by code_simp

lemma run_AAAAAAAA_patterns: "find_patterns ''AAAAAAAA'' = []"
  by code_simp

lemma run_AAAAAAAA_repetitive: "\<not> is_highly_repetitive ''AAAAAAAA''"
  by code_simp

lemma run_AAAAAAAA_error_rate:
  "calculate_error_rate ''AAAAAAAA'' = Inr (PyFloat (3152519739159347 / 36028797018963968))"
  by code_simp

lemma run_AAAAAAAA_scores:
  "calculate_quality_scores ''AAAAAAAA'' = [30, 35, 38, 38, 38, 38, 38, 38]"
  by code_simp

lemma run_rle_encode:
  "rle_encode [0, 0, 30, 35, 38, 38, 38, 38, 38, 38] = [2, 0, 1, 30, 1, 35, 6, 38]"
  by code_simp

lemma run_rle_decode:
  "rle_decode [2, 0, 1, 30, 1, 35, 6, 38] = Inr [0, 0, 30, 35, 38, 38, 38, 38, 38, 38]"
  by code_simp

lemma run_ascii_decode:
  "ascii_decode [0, 0, 30, 35, 38, 38, 38, 38, 38, 38] =
     Inr [CHR 0x00, CHR 0x00, CHR 0x1E, CHR ''#'', CHR ''&'', CHR ''&'', CHR ''&'', CHR ''&'',
          CHR ''&'', CHR ''&'']"
  by code_simp

lemma run_compress_chunk:
  "compress_chunk run_length_lib ''AAAAAAAA'' =
     Inr ([2, 0, 1, 30, 1, 35, 6, 38],
          \<lparr>original_length = 8, patterns = [],
           checksum = uint (crc32 [0, 0, 30, 35, 38, 38, 38, 38, 38, 38]),
           quality_scores = [30, 35, 38, 38, 38, 38, 38, 38],
           compression_type = ''adaptive'',
           error_rate = PyFloat (3152519739159347 / 36028797018963968)\<rparr>)"
  by (simp add: compress_chunk_def run_length_lib_def run_AAAAAAAA_encode run_AAAAAAAA_patterns
      run_AAAAAAAA_repetitive run_AAAAAAAA_error_rate run_AAAAAAAA_scores run_rle_encode)

lemma run_decompress_step:
  "decompress_step run_length_lib [2, 0, 1, 30, 1, 35, 6, 38]
     \<lparr>decompressed_chunks = [], current_pos = 0, warnings = []\<rparr>
     \<lparr>original_length = 8, patterns = [],
      checksum = uint (crc32 [0, 0, 30, 35, 38, 38, 38, 38, 38, 38]),
      quality_scores = [30, 35, 38, 38, 38, 38, 38, 38],
      compression_type = ''adaptive'',
      error_rate = PyFloat (3152519739159347 / 36028797018963968)\<rparr> =
   Inr \<lparr>decompressed_chunks = [[0, 0, 30, 35, 38, 38, 38, 38, 38, 38]], current_pos = 8,
        warnings = []\<rparr>"
  by (simp add: decompress_step_def chunk_data_at_def py_slice_def slice_index_def substring_def
      run_length_lib_def run_rle_decode low_quality_detected_def quality_threshold_def
      del: rle_decode.simps)

lemma run_decompress:
  "decompress run_length_lib [2, 0, 1, 30, 1, 35, 6, 38]
     [\<lparr>original_length = 8, patterns = [],
       checksum = uint (crc32 [0, 0, 30, 35, 38, 38, 38, 38, 38, 38]),
       quality_scores = [30, 35, 38, 38, 38, 38, 38, 38],
       compression_type = ''adaptive'',
       error_rate = PyFloat (3152519739159347 / 36028797018963968)\<rparr>] =
   Inr ([CHR 0x00, CHR 0x00, CHR 0x1E, CHR ''#'', CHR ''&'', CHR ''&'', CHR ''&'', CHR ''&'',
         CHR ''&'', CHR ''&''], [])"
proof -
  have "b64decode run_length_lib = Inr" "bytes_decode run_length_lib = ascii_decode"
    by (simp_all add: run_length_lib_def)
  then show ?thesis
    by (simp add: decompress_def run_decompress_step run_ascii_decode)
qed

theorem low_quality_warning_unreachable_witness:
  "compress_chunk run_length_lib ''AAAAAAAA'' =
     Inr ([2, 0, 1, 30, 1, 35, 6, 38],
          \<lparr>original_length = 8, patterns = [],
           checksum = uint (crc32 [0, 0, 30, 35, 38, 38, 38, 38, 38, 38]),
           quality_scores = [30, 35, 38, 38, 38, 38, 38, 38],
           compression_type = ''adaptive'',
           error_rate = PyFloat (3152519739159347 / 36028797018963968)\<rparr>) \<and>
   decompress run_length_lib [2, 0, 1, 30, 1, 35, 6, 38]
     [\<lparr>original_length = 8, patterns = [],
       checksum = uint (crc32 [0, 0, 30, 35, 38, 38, 38, 38, 38, 38]),
       quality_scores = [30, 35, 38, 38, 38, 38, 38, 38],
       compression_type = ''adaptive'',
       error_rate = PyFloat (3152519739159347 / 36028797018963968)\<rparr>] =
     Inr ([CHR 0x00, CHR 0x00, CHR 0x1E, CHR ''#'', CHR ''&'', CHR ''&'', CHR ''&'', CHR ''&'',
           CHR ''&'', CHR ''&''], []) \<and>
   \<not> low_quality_detected [30, 35, 38, 38, 38, 38, 38, 38] \<and>
   35 \<in> set (calculate_quality_scores ''AAAAAAAA'') \<and> (30::int) \<le> 35 \<and> (35::int) \<le> 38"
proof -
  let ?m = "\<lparr>original_length = 8, patterns = [],
       checksum = uint (crc32 [0, 0, 30, 35, 38, 38, 38, 38, 38, 38]),
       quality_scores = [30, 35, 38, 38, 38, 38, 38, 38],
       compression_type = ''adaptive'',
       error_rate = PyFloat (3152519739159347 / 36028797018963968)\<rparr>"
  let ?st = "\<lparr>decompressed_chunks = [], current_pos = 0, warnings = []\<rparr>"
  let ?st' = "\<lparr>decompressed_chunks = [[0, 0, 30, 35, 38, 38, 38, 38, 38, 38 :: byte]],
       current_pos = 8, warnings = []\<rparr>"
  note all = low_quality_warning_unreachable [where s = "''AAAAAAAA''" and lib = run_length_lib
      and chunk = "''AAAAAAAA''" and compressed = "[2, 0, 1, 30, 1, 35, 6, 38]" and m = ?m
      and decoded = "[2, 0, 1, 30, 1, 35, 6, 38]" and st = ?st and st' = ?st' and mds = "[?m]"
      and blob = "[2, 0, 1, 30, 1, 35, 6, 38]"
      and result = "[CHR 0x00, CHR 0x00, CHR 0x1E, CHR ''#'', CHR ''&'', CHR ''&'', CHR ''&'',
           CHR ''&'', CHR ''&'', CHR ''&'']" and logged = "[]"]
  have member: "35 \<in> set (calculate_quality_scores ''AAAAAAAA'')"
    by (simp add: run_AAAAAAAA_scores)
  from all have "\<not> low_quality_detected (quality_scores ?m)"
    using run_compress_chunk by blast
  moreover from all member have "(30::int) \<le> 35 \<and> (35::int) \<le> 38"
    by blast
  ultimately show ?thesis
    using run_compress_chunk run_decompress member by simp
qed

text \<open>
  The lists \<^verbatim>\<open>compress\<close> holds after the loop over the results of the chunks, for a
  positive chunk size and every input: \<open>\<lceil>N / C\<rceil>\<close> contiguous chunks of at most \<open>C\<close>
  symbols, only the last one possibly shorter, one metadata entry for each chunk in the
  order of the chunks, and \<^verbatim>\<open>original_length\<close> fields that add up to \<open>N\<close>.
\<close>

lemma chunk_invariants:
  assumes "0 < C"
  shows "\<exists>chunks compressed mds.
     split_chunks C s = Inr chunks \<and>
     compress_chunks lib C s = Inr (compressed, mds) \<and>
     int (length chunks) = \<lceil>real (length s) / real_of_int C\<rceil> \<and>
     concat chunks = s \<and>
     (\<forall>k<length chunks.
        chunks ! k = substring s (k * nat C) (k * nat C + nat C) \<and>
        chunks ! k \<noteq> [] \<and> int (length (chunks ! k)) \<le> C \<and>
        (Suc k < length chunks \<longrightarrow> int (length (chunks ! k)) = C)) \<and>
     length mds = length chunks \<and>
     (\<forall>k<length chunks.
        compress_chunk lib (chunks ! k) = Inr (compressed ! k, mds ! k) \<and>
        original_length (mds ! k) = int (length (chunks ! k))) \<and>
     sum_list (map original_length mds) = int (length s)"
proof -
  define c where "c = nat C"
  have c: "0 < c" "C = int c" using assms by (simp_all add: c_def)
  let ?m = "(length s + c - 1) div c"
  define chunks where "chunks = map (\<lambda>k. substring s (k * c) (k * c + c)) [0..<?m]"
  have split: "split_chunks C s = Inr chunks"
    using c by (simp add: chunks_def split_chunks_pos)
  obtain compressed mds where r: "compress_chunks lib (int c) s = Inr (compressed, mds)"
    "length compressed = ?m" "length mds = ?m"
    "\<forall>k<?m. compress_chunk lib (substring s (k * c) (k * c + c)) = Inr (compressed ! k, mds ! k)"
    using compress_chunks_pos [OF c(1), of lib s] by blast
  have len: "length chunks = ?m" by (simp add: chunks_def)
  have nth: "chunks ! k = substring s (k * c) (k * c + c)" if "k < ?m" for k
    using that by (simp add: chunks_def)
  have count: "int (length chunks) = \<lceil>real (length s) / real_of_int C\<rceil>"
    using ceiling_div_nat [OF c(1), of "length s"] len c(2) by simp
  have cover: "concat chunks = s"
    using chunks_cover [OF c(1), of s] by (simp add: chunks_def concat_chunks_take)
  have shape: "chunks ! k \<noteq> [] \<and> int (length (chunks ! k)) \<le> C \<and>
      (Suc k < length chunks \<longrightarrow> int (length (chunks ! k)) = C)" if "k < ?m" for k
  proof -
    have start: "k * c < length s" using chunk_start_in_range [OF c(1) that] .
    have full: "length (chunks ! k) = c" if "Suc k < length chunks"
    proof -
      have "Suc k < ?m" using that len by simp
      then have "Suc k * c < length s" by (rule chunk_start_in_range [OF c(1)])
      then show ?thesis using nth [OF \<open>k < ?m\<close>] by (simp add: substring_def)
    qed
    show ?thesis
      using start full nth [OF that] c by (auto simp add: substring_def)
  qed
  have meta: "compress_chunk lib (chunks ! k) = Inr (compressed ! k, mds ! k) \<and>
      original_length (mds ! k) = int (length (chunks ! k))" if "k < ?m" for k
    using r(4) nth [OF that] that compress_chunk_original_length by metis
  have "map original_length mds = map (\<lambda>x. int (length x)) chunks"
    using meta r(3) len by (auto intro!: nth_equalityI)
  then have total: "sum_list (map original_length mds) = int (length s)"
    using cover by (simp add: sum_list_lengths_concat)
  have where_from: "chunks ! k = substring s (k * nat C) (k * nat C + nat C)" if "k < ?m" for k
    using nth [OF that] by (simp add: c_def)
  show ?thesis
  proof (intro exI conjI)
    show "split_chunks C s = Inr chunks" by (fact split)
    show "compress_chunks lib C s = Inr (compressed, mds)" using r(1) c(2) by simp
    show "int (length chunks) = \<lceil>real (length s) / real_of_int C\<rceil>" by (fact count)
    show "concat chunks = s" by (fact cover)
    show "\<forall>k<length chunks.
        chunks ! k = substring s (k * nat C) (k * nat C + nat C) \<and>
        chunks ! k \<noteq> [] \<and> int (length (chunks ! k)) \<le> C \<and>
        (Suc k < length chunks \<longrightarrow> int (length (chunks ! k)) = C)"
      using where_from shape unfolding len by blast
    show "length mds = length chunks" using r(3) len by simp
    show "\<forall>k<length chunks.
        compress_chunk lib (chunks ! k) = Inr (compressed ! k, mds ! k) \<and>
        original_length (mds ! k) = int (length (chunks ! k))"
      using meta unfolding len by blast
    show "sum_list (map original_length mds) = int (length s)" by (fact total)
  qed
qed

lemma chunk_invariants_example:
  "(0::int) < 40 \<and>
   (\<exists>chunks compressed mds.
      split_chunks 40 (replicate 100 (CHR ''A'')) = Inr chunks \<and>
      compress_chunks run_length_lib 40 (replicate 100 (CHR ''A'')) = Inr (compressed, mds) \<and>
      length chunks = 3 \<and> length mds = 3 \<and> concat chunks = replicate 100 (CHR ''A'') \<and>
      sum_list (map original_length mds) = 100)"
proof -
  have pos: "(0::int) < 40" by simp
  obtain chunks compressed mds where
    "split_chunks 40 (replicate 100 (CHR ''A'')) = Inr chunks"
    "compress_chunks run_length_lib 40 (replicate 100 (CHR ''A'')) = Inr (compressed, mds)"
    "int (length chunks) = \<lceil>real (length (replicate 100 (CHR ''A''))) / real_of_int 40\<rceil>"
    "concat chunks = replicate 100 (CHR ''A'')"
    "length mds = length chunks"
    "sum_list (map original_length mds) = int (length (replicate 100 (CHR ''A'')))"
    using chunk_invariants [OF pos, of "replicate 100 (CHR ''A'')" run_length_lib] by blast
  then show ?thesis by (intro conjI exI [of _ chunks] exI [of _ compressed] exI [of _ mds]) simp_all
qed

lemma cursor_at_0 [simp]: "cursor_at mds 0 = 0"
  by (simp add: cursor_at_def)

lemma cursor_at_Suc [simp]: "cursor_at (m # mds) (Suc k) = original_length m + cursor_at mds k"
  by (simp add: cursor_at_def)

lemma decompress_step_Inr:
  "decompress_step lib decoded st m = Inr st' \<longleftrightarrow>
     (\<exists>bytes. zlib_decompress lib (chunk_data_at decoded (current_pos st) m) = Inr bytes \<and>
        uint (zlib_crc32 lib bytes) = checksum m \<and>
        st' = \<lparr>decompressed_chunks = decompressed_chunks st @ [bytes],
               current_pos = current_pos st + original_length m,
               warnings = (if low_quality_detected (quality_scores m)
                           then warnings st @ [current_pos st] else warnings st)\<rparr>)"
  by (auto simp add: decompress_step_def Let_def split: sum.splits)

lemma decompress_step_mismatch:
  "zlib_decompress lib (chunk_data_at decoded (current_pos st) m) = Inr bytes \<Longrightarrow>
   uint (zlib_crc32 lib bytes) \<noteq> checksum m \<Longrightarrow>
     decompress_step lib decoded st m = Inl (ChecksumMismatch (current_pos st))"
  by (simp add: decompress_step_def Let_def)

lemma decompress_loop_checked:
  "decompress_loop lib decoded st mds = Inr st' \<Longrightarrow> k < length mds \<Longrightarrow>
     \<exists>bytes. zlib_decompress lib (chunk_data_at decoded (current_pos st + cursor_at mds k) (mds ! k))
               = Inr bytes \<and>
             uint (zlib_crc32 lib bytes) = checksum (mds ! k)"
proof (induction mds arbitrary: st k)
  case Nil
  then show ?case by simp
next
  case (Cons m mds)
  from Cons.prems(1) obtain st1 where step: "decompress_step lib decoded st m = Inr st1"
    and rest: "decompress_loop lib decoded st1 mds = Inr st'"
    by (auto split: sum.splits)
  from step obtain bytes where b:
    "zlib_decompress lib (chunk_data_at decoded (current_pos st) m) = Inr bytes"
    "uint (zlib_crc32 lib bytes) = checksum m"
    "current_pos st1 = current_pos st + original_length m"
    unfolding decompress_step_Inr by auto
  show ?case
  proof (cases k)
    case 0
    then show ?thesis using b by simp
  next
    case (Suc j)
    then have "j < length mds" using Cons.prems(2) by simp
    from Cons.IH [OF rest this] show ?thesis
      using Suc b(3) by (simp add: add.assoc)
  qed
qed

lemma decompress_loop_mismatch:
  assumes "k < length mds"
    and "\<And>j. j < k \<Longrightarrow>
          \<exists>b. zlib_decompress lib (chunk_data_at decoded (current_pos st + cursor_at mds j) (mds ! j))
               = Inr b"
    and "zlib_decompress lib (chunk_data_at decoded (current_pos st + cursor_at mds k) (mds ! k))
          = Inr bytes"
    and "uint (zlib_crc32 lib bytes) \<noteq> checksum (mds ! k)"
  shows "\<exists>pos. decompress_loop lib decoded st mds = Inl (ChecksumMismatch pos)"
  using assms
proof (induction mds arbitrary: st k)
  case Nil
  then show ?case by simp
next
  case (Cons m mds)
  show ?case
  proof (cases k)
    case 0
    then show ?thesis
      using Cons.prems(3,4) by (simp add: decompress_step_mismatch)
  next
    case (Suc j)
    obtain b where b: "zlib_decompress lib (chunk_data_at decoded (current_pos st) m) = Inr b"
      using Cons.prems(2) [of 0] Suc by auto
    show ?thesis
    proof (cases "uint (zlib_crc32 lib b) = checksum m")
      case False
      then show ?thesis using b by (simp add: decompress_step_mismatch)
    next
      case True
      define st1 where "st1 = \<lparr>decompressed_chunks = decompressed_chunks st @ [b],
               current_pos = current_pos st + original_length m,
               warnings = (if low_quality_detected (quality_scores m)
                           then warnings st @ [current_pos st] else warnings st)\<rparr>"
      have step: "decompress_step lib decoded st m = Inr st1"
        unfolding decompress_step_Inr using b True by (simp add: st1_def)
      have pos: "current_pos st1 = current_pos st + original_length m" by (simp add: st1_def)
      have "\<exists>pos. decompress_loop lib decoded st1 mds = Inl (ChecksumMismatch pos)"
      proof (rule Cons.IH [of j])
        show "j < length mds" using Cons.prems(1) Suc by simp
        show "\<exists>b. zlib_decompress lib
                 (chunk_data_at decoded (current_pos st1 + cursor_at mds i) (mds ! i)) = Inr b"
          if "i < j" for i
          using Cons.prems(2) [of "Suc i"] that Suc pos by (simp add: add.assoc)
        show "zlib_decompress lib
                 (chunk_data_at decoded (current_pos st1 + cursor_at mds j) (mds ! j)) = Inr bytes"
          using Cons.prems(3) Suc pos by (simp add: add.assoc)
        show "uint (zlib_crc32 lib bytes) \<noteq> checksum (mds ! j)"
          using Cons.prems(4) Suc by simp
      qed
      then show ?thesis using step by simp
    qed
  qed
qed

subsection \<open>Claim on the checksums of \<^verbatim>\<open>decompress\<close>\<close>

text \<open>
  Claim C4: in \<^verbatim>\<open>decompress\<close> the CRC-32 of the decompressed bytes of every chunk is
  computed again and compared with the checksum stored in the metadata of the chunk. When
  \<^verbatim>\<open>decompress\<close> returns a sequence, every chunk was decompressed and its checksum equals
  the stored one. When the checksum of some chunk differs, \<^verbatim>\<open>decompress\<close> returns no
  result, partial or not; the exception is ChecksumMismatch whenever the loop gets as far
  as that chunk, that is, when the chunks before it could be decompressed (a slice the
  decompressor rejects raises the decode error of the library first).
\<close>

theorem decompress_verifies_checksums:
  assumes "b64decode lib blob = Inr decoded"
  shows
    "(decompress lib blob mds = Inr (result, logged) \<longrightarrow>
        (\<forall>k<length mds. \<exists>bytes. inflated_at lib decoded mds k = Inr bytes \<and>
                                 uint (zlib_crc32 lib bytes) = checksum (mds ! k))) \<and>
     (k < length mds \<and> inflated_at lib decoded mds k = Inr bytes \<and>
      uint (zlib_crc32 lib bytes) \<noteq> checksum (mds ! k) \<longrightarrow>
        (\<exists>e. decompress lib blob mds = Inl e) \<and>
        ((\<forall>j<k. \<exists>b. inflated_at lib decoded mds j = Inr b) \<longrightarrow>
           (\<exists>pos. decompress lib blob mds = Inl (ChecksumMismatch pos))))"
proof -
  let ?st0 = "\<lparr>decompressed_chunks = [], current_pos = 0, warnings = []\<rparr>"
  have checked: "\<exists>bytes. inflated_at lib decoded mds i = Inr bytes \<and>
      uint (zlib_crc32 lib bytes) = checksum (mds ! i)"
    if "decompress_loop lib decoded ?st0 mds = Inr st" "i < length mds" for st i
    using decompress_loop_checked [OF that] by (simp add: inflated_at_def)
  have loop_of: "\<exists>st. decompress_loop lib decoded ?st0 mds = Inr st"
    if "decompress lib blob mds = Inr r" for r
    using that assms by (auto simp add: decompress_def split: sum.splits)
  have returned: "\<forall>i<length mds. \<exists>bytes. inflated_at lib decoded mds i = Inr bytes \<and>
      uint (zlib_crc32 lib bytes) = checksum (mds ! i)"
    if "decompress lib blob mds = Inr (result, logged)"
    using loop_of [OF that] checked by blast
  have aborted: "\<exists>e. decompress lib blob mds = Inl e"
    if "k < length mds" "inflated_at lib decoded mds k = Inr bytes"
      "uint (zlib_crc32 lib bytes) \<noteq> checksum (mds ! k)"
  proof (cases "decompress lib blob mds")
    case (Inl e)
    then show ?thesis by blast
  next
    case (Inr r)
    then obtain st where "decompress_loop lib decoded ?st0 mds = Inr st"
      using loop_of by blast
    from checked [OF this that(1)] that(2,3) show ?thesis by simp
  qed
  have mismatch: "\<exists>pos. decompress lib blob mds = Inl (ChecksumMismatch pos)"
    if "k < length mds" "inflated_at lib decoded mds k = Inr bytes"
      "uint (zlib_crc32 lib bytes) \<noteq> checksum (mds ! k)"
      "\<forall>j<k. \<exists>b. inflated_at lib decoded mds j = Inr b"
  proof -
    have "\<exists>pos. decompress_loop lib decoded ?st0 mds = Inl (ChecksumMismatch pos)"
    proof (rule decompress_loop_mismatch [of k])
      show "k < length mds" by (fact that(1))
      show "\<exists>b. zlib_decompress lib
               (chunk_data_at decoded (current_pos ?st0 + cursor_at mds j) (mds ! j)) = Inr b"
        if "j < k" for j
        using that \<open>\<forall>j<k. \<exists>b. inflated_at lib decoded mds j = Inr b\<close>
        by (simp add: inflated_at_def)
      show "zlib_decompress lib
               (chunk_data_at decoded (current_pos ?st0 + cursor_at mds k) (mds ! k)) = Inr bytes"
        using that(2) by (simp add: inflated_at_def)
      show "uint (zlib_crc32 lib bytes) \<noteq> checksum (mds ! k)" by (fact that(3))
    qed
    then show ?thesis using assms by (auto simp add: decompress_def)
  qed
  show ?thesis
    using returned aborted mismatch by blast
qed

theorem decompress_verifies_checksums_witness:
  "b64decode run_length_lib [2, 0, 1, 30, 1, 35, 6, 38] = Inr [2, 0, 1, 30, 1, 35, 6, 38] \<and>
   decompress run_length_lib [2, 0, 1, 30, 1, 35, 6, 38]
     [\<lparr>original_length = 8, patterns = [],
       checksum = uint (crc32 [0, 0, 30, 35, 38, 38, 38, 38, 38, 38]),
       quality_scores = [30, 35, 38, 38, 38, 38, 38, 38],
       compression_type = ''adaptive'',
       error_rate = PyFloat (3152519739159347 / 36028797018963968)\<rparr>] =
     Inr ([CHR 0x00, CHR 0x00, CHR 0x1E, CHR ''#'', CHR ''&'', CHR ''&'', CHR ''&'', CHR ''&'',
           CHR ''&'', CHR ''&''], []) \<and>
   (\<exists>bytes.
      inflated_at run_length_lib [2, 0, 1, 30, 1, 35, 6, 38]
        [\<lparr>original_length = 8, patterns = [],
          checksum = uint (crc32 [0, 0, 30, 35, 38, 38, 38, 38, 38, 38]),
          quality_scores = [30, 35, 38, 38, 38, 38, 38, 38],
          compression_type = ''adaptive'',
          error_rate = PyFloat (3152519739159347 / 36028797018963968)\<rparr>] 0 = Inr bytes \<and>
      uint (zlib_crc32 run_length_lib bytes) = uint (crc32 [0, 0, 30, 35, 38, 38, 38, 38, 38, 38])) \<and>
   inflated_at run_length_lib [2, 0, 1, 30, 1, 35, 6, 38]
     [\<lparr>original_length = 8, patterns = [],
       checksum = uint (crc32 [0, 0, 30, 35, 38, 38, 38, 38, 38, 38]) + 1,
       quality_scores = [30, 35, 38, 38, 38, 38, 38, 38],
       compression_type = ''adaptive'',
       error_rate = PyFloat (3152519739159347 / 36028797018963968)\<rparr>] 0 =
     Inr [0, 0, 30, 35, 38, 38, 38, 38, 38, 38] \<and>
   uint (zlib_crc32 run_length_lib [0, 0, 30, 35, 38, 38, 38, 38, 38, 38]) \<noteq>
     uint (crc32 [0, 0, 30, 35, 38, 38, 38, 38, 38, 38]) + 1 \<and>
   (\<exists>pos. decompress run_length_lib [2, 0, 1, 30, 1, 35, 6, 38]
     [\<lparr>original_length = 8, patterns = [],
       checksum = uint (crc32 [0, 0, 30, 35, 38, 38, 38, 38, 38, 38]) + 1,
       quality_scores = [30, 35, 38, 38, 38, 38, 38, 38],
       compression_type = ''adaptive'',
       error_rate = PyFloat (3152519739159347 / 36028797018963968)\<rparr>] =
     Inl (ChecksumMismatch pos))"
proof -
  let ?blob = "[2, 0, 1, 30, 1, 35, 6, 38] :: byte list"
  let ?enc = "[0, 0, 30, 35, 38, 38, 38, 38, 38, 38] :: byte list"
  let ?good = "\<lparr>original_length = 8, patterns = [], checksum = uint (crc32 ?enc),
       quality_scores = [30, 35, 38, 38, 38, 38, 38, 38], compression_type = ''adaptive'',
       error_rate = PyFloat (3152519739159347 / 36028797018963968)\<rparr>"
  let ?bad = "\<lparr>original_length = 8, patterns = [], checksum = uint (crc32 ?enc) + 1,
       quality_scores = [30, 35, 38, 38, 38, 38, 38, 38], compression_type = ''adaptive'',
       error_rate = PyFloat (3152519739159347 / 36028797018963968)\<rparr>"
  have decoded: "b64decode run_length_lib ?blob = Inr ?blob"
    by (simp add: run_length_lib_def)
  have crc: "zlib_crc32 run_length_lib = crc32"
    by (simp add: run_length_lib_def)
  have inflated: "inflated_at run_length_lib ?blob [?bad] 0 = Inr ?enc"
    by (simp add: inflated_at_def chunk_data_at_def py_slice_def slice_index_def substring_def
        run_length_lib_def run_rle_decode del: rle_decode.simps)
  have differs: "uint (zlib_crc32 run_length_lib ?enc) \<noteq> checksum ?bad"
    by (simp add: crc)
  have first: "(0::nat) < length [?good]" and first': "(0::nat) < length [?bad]"
    by simp_all
  note good = decompress_verifies_checksums [OF decoded, where mds = "[?good]"
      and result = "[CHR 0x00, CHR 0x00, CHR 0x1E, CHR ''#'', CHR ''&'', CHR ''&'', CHR ''&'',
            CHR ''&'', CHR ''&'', CHR ''&'']" and logged = "[]", THEN conjunct1]
  note bad = decompress_verifies_checksums [OF decoded, where mds = "[?bad]" and k = 0
      and bytes = ?enc, THEN conjunct2]
  from good run_decompress first
  have "\<exists>bytes. inflated_at run_length_lib ?blob [?good] 0 = Inr bytes \<and>
      uint (zlib_crc32 run_length_lib bytes) = checksum ([?good] ! 0)"
    by blast
  moreover from bad first' inflated differs
  have "\<exists>pos. decompress run_length_lib ?blob [?bad] = Inl (ChecksumMismatch pos)"
    by simp
  ultimately show ?thesis
    using decoded run_decompress inflated differs by simp
qed

subsection \<open>Packing bits into bytes\<close>

lemma byte_of_int_high: "(of_int (a * 256 ^ Suc m + r) :: byte) = of_int r"
proof -
  have z: "(256 :: byte) = 0" by simp
  have "(of_int (256 ^ Suc m) :: byte) = (256 :: byte) ^ Suc m" by simp
  also have "\<dots> = 0" by (subst z) simp
  finally have "(of_int (256 ^ Suc m) :: byte) = 0" .
  then show ?thesis by (simp only: of_int_add of_int_mult mult_zero_right add_0_left)
qed

lemma big_endian_bytes_pack:
  "length bits = 8 * k \<Longrightarrow>
     map (\<lambda>i. (of_int (binary_value bits div 256 ^ (k - 1 - i)) :: byte)) [0..<k] = pack_bits bits"
proof (induction k arbitrary: bits)
  case 0
  then show ?case by (simp add: pack_bits.simps)
next
  case (Suc k)
  define hi lo where "hi = take 8 bits" and "lo = drop 8 bits"
  have bits: "bits = hi @ lo" and lo: "length lo = 8 * k" and ne: "bits \<noteq> []"
    using Suc.prems by (auto simp add: hi_def lo_def)
  have v: "binary_value bits = binary_value hi * 256 ^ k + binary_value lo"
    using lo by (simp add: bits binary_value_append power_mult)
  have lo_bound: "0 \<le> binary_value lo" "binary_value lo < 256 ^ k"
    using binary_value_bounds [of lo] lo by (simp_all add: power_mult)
  have first: "binary_value bits div 256 ^ k = binary_value hi"
    using lo_bound by (simp add: v div_pos_pos_trivial)
  have later: "(of_int (binary_value bits div 256 ^ (k - 1 - i)) :: byte)
      = of_int (binary_value lo div 256 ^ (k - 1 - i))" if "i < k" for i
  proof -
    define j where "j = k - 1 - i"
    have m: "k = Suc i + j" using that by (simp add: j_def)
    have "(256::int) ^ k = 256 ^ Suc i * 256 ^ j" by (subst m) (rule power_add)
    then have "binary_value bits = (binary_value hi * 256 ^ Suc i) * 256 ^ j + binary_value lo"
      by (simp only: v mult.assoc)
    moreover have "((binary_value hi * 256 ^ Suc i) * 256 ^ j + binary_value lo) div 256 ^ j
        = binary_value hi * 256 ^ Suc i + binary_value lo div 256 ^ j"
      by (rule div_mult_self3) simp
    ultimately have "binary_value bits div 256 ^ j
        = binary_value hi * 256 ^ Suc i + binary_value lo div 256 ^ j"
      by (simp only:)
    then show ?thesis unfolding j_def [symmetric] by (simp only: byte_of_int_high)
  qed
  have "map (\<lambda>i. (of_int (binary_value bits div 256 ^ (Suc k - 1 - i)) :: byte)) [0..<Suc k]
      = of_int (binary_value bits div 256 ^ k)
        # map (\<lambda>i. of_int (binary_value bits div 256 ^ (k - 1 - i))) [0..<k]"
    by (simp add: upt_conv_Cons map_Suc_upt [symmetric] del: upt_Suc)
  also have "map (\<lambda>i. (of_int (binary_value bits div 256 ^ (k - 1 - i)) :: byte)) [0..<k]
      = map (\<lambda>i. of_int (binary_value lo div 256 ^ (k - 1 - i))) [0..<k]"
    using later by simp
  also have "\<dots> = pack_bits lo" using lo by (rule Suc.IH)
  finally show ?case
    using ne first by (subst pack_bits.simps) (simp add: hi_def lo_def)
qed

lemma pad_length_fills: "pad_length n + n = 8 * ((n + 7) div 8)"
proof -
  define q r where "q = n div 8" and "r = n mod 8"
  have n: "n = 8 * q + r" and r: "r < 8" by (simp_all add: q_def r_def)
  show ?thesis
  proof (cases "r = 0")
    case True
    then have "pad_length n = 0" by (simp add: pad_length_def r_def)
    moreover have "(n + 7) div 8 = q" using True n by simp
    ultimately show ?thesis using True n by simp
  next
    case False
    then have "pad_length n = 8 - r" using r by (simp add: pad_length_def r_def)
    moreover have "n + 7 = 8 * (q + 1) + (r - 1)" using False n by simp
    then have "(n + 7) div 8 = q + 1" using r by simp
    ultimately show ?thesis using r n by simp
  qed
qed

subsection \<open>Claim on the encoder\<close>

text \<open>
  Claim C5 says that the encoder packs the bits of the bases and of the quality scores into
  bytes and fills up the final byte with zero bits. The code converts the bit string to an
  integer and writes that integer big-endian, so the zero bits come in front of the first
  byte. For the one base \<^verbatim>\<open>T\<close> the ten bits \<^verbatim>\<open>11 00011110\<close> are the bytes \<^verbatim>\<open>03 1E\<close> in
  the code and \<^verbatim>\<open>C7 80\<close> in the claim.
\<close>

theorem encode_sequence_padding_counterexample:
  "encode_sequence ''T'' = Inr [0x03, 0x1E] \<and>
   spec_encode ''T'' (calculate_quality_scores ''T'') = [0xC7, 0x80]"
  by code_simp

text \<open>
  Claim C5 as amended: for every sequence that is not empty, the encoder maps each base,
  in upper case, to its code of two bits (\<^verbatim>\<open>A\<close> 00, \<^verbatim>\<open>C\<close> 01, \<^verbatim>\<open>G\<close> 10, \<^verbatim>\<open>T\<close> 11, any
  other symbol 00), in the order of the sequence, appends each quality score as a field of
  eight bits in the same order, and packs the combined bit string into bytes, first bit
  highest, after zero bits have been put in front of it to make the length a multiple of 8.
  The empty sequence raises \<^verbatim>\<open>ValueError\<close>.
\<close>

theorem encode_sequence_packs_bits:
  "(s \<noteq> [] \<longrightarrow>
      encode_sequence s =
        Inr (pack_bits (replicate (pad_length (10 * length s)) (CHR ''0'') @
                        concat (map encoding_get (upper s)) @
                        concat (map format_08b (calculate_quality_scores s)))) \<and>
      (\<forall>q \<in> set (calculate_quality_scores s).
         length (format_08b q) = 8 \<and> binary (format_08b q) \<and> binary_value (format_08b q) = q)) \<and>
   encode_sequence [] = Inl IntLiteralError \<and>
   encoding_get (CHR ''A'') = ''00'' \<and> encoding_get (CHR ''C'') = ''01'' \<and>
   encoding_get (CHR ''G'') = ''10'' \<and> encoding_get (CHR ''T'') = ''11'' \<and>
   (c \<notin> set ''ACGT'' \<longrightarrow> encoding_get c = ''00'')"
proof -
  have packed: "encode_sequence s =
        Inr (pack_bits (replicate (pad_length (10 * length s)) (CHR ''0'') @
                        concat (map encoding_get (upper s)) @
                        concat (map format_08b (calculate_quality_scores s))))" if "s \<noteq> []"
  proof -
    let ?c = "combined_bits s (calculate_quality_scores s)"
    let ?p = "replicate (pad_length (10 * length s)) (CHR ''0'') @ ?c"
    have len: "length ?c = 10 * length s" using combined_bits_quality [of s] by simp
    have "length ?p = 8 * ((10 * length s + 7) div 8)"
      using pad_length_fills [of "10 * length s"] len by simp
    then have "map (\<lambda>i. (of_int (binary_value ?p div 256 ^ ((10 * length s + 7) div 8 - 1 - i)) :: byte))
        [0..<(10 * length s + 7) div 8] = pack_bits ?p"
      by (rule big_endian_bytes_pack)
    moreover have "binary_value ?p = binary_value ?c"
      by (simp add: binary_value_append)
    ultimately show ?thesis
      using encode_sequence_eq [OF that] by (simp add: combined_bits_def)
  qed
  have fields: "length (format_08b q) = 8 \<and> binary (format_08b q) \<and> binary_value (format_08b q) = q"
    if "q \<in> set (calculate_quality_scores s)" for q
    using quality_scores_range [OF that] format_08b_field [of q] by simp
  have empty: "encode_sequence [] = Inl IntLiteralError"
    by (simp add: encode_sequence_def upper_def calculate_quality_scores_def int_base2_def)
  have codes: "encoding_get (CHR ''A'') = ''00''" "encoding_get (CHR ''C'') = ''01''"
    "encoding_get (CHR ''G'') = ''10''" "encoding_get (CHR ''T'') = ''11''"
    by (simp_all add: encoding_get_def)
  have other: "encoding_get c = ''00''" if "c \<notin> set ''ACGT''"
    using that by (simp add: encoding_get_def)
  show ?thesis
    using packed fields empty codes other by blast
qed

theorem encode_sequence_packs_bits_witness:
  "''T'' \<noteq> [] \<and> encode_sequence ''T'' = Inr (pack_bits ''0000001100011110'') \<and>
   pack_bits ''0000001100011110'' = [0x03, 0x1E] \<and>
   30 \<in> set (calculate_quality_scores ''T'') \<and> format_08b 30 = ''00011110'' \<and>
   CHR ''N'' \<notin> set ''ACGT'' \<and> encoding_get (CHR ''N'') = ''00''"
proof -
  have ne: "''T'' \<noteq> []" by simp
  have scores: "calculate_quality_scores ''T'' = [30]" by code_simp
  have combined: "replicate (pad_length (10 * length ''T'')) (CHR ''0'') @
      concat (map encoding_get (upper ''T'')) @
      concat (map format_08b (calculate_quality_scores ''T'')) = ''0000001100011110''"
    by code_simp
  have field: "format_08b 30 = ''00011110''" by code_simp
  have bytes: "pack_bits ''0000001100011110'' = [0x03, 0x1E]" by code_simp
  have other: "CHR ''N'' \<notin> set ''ACGT''" by simp
  note all = encode_sequence_packs_bits [of "''T''" "CHR ''N''"]
  from all ne have "encode_sequence ''T'' =
        Inr (pack_bits (replicate (pad_length (10 * length ''T'')) (CHR ''0'') @
                        concat (map encoding_get (upper ''T'')) @
                        concat (map format_08b (calculate_quality_scores ''T''))))"
    by blast
  then have "encode_sequence ''T'' = Inr (pack_bits ''0000001100011110'')"
    by (simp only: combined)
  moreover from all other have "encoding_get (CHR ''N'') = ''00''" by blast
  ultimately show ?thesis using bytes field scores by simp
qed

subsection \<open>The pattern map\<close>

lemma map_of_append_position:
  "map_of (append_position p i d) k =
     (if k = p then Some ((case map_of d p of None \<Rightarrow> [] | Some v \<Rightarrow> v) @ [i]) else map_of d k)"
  by (induction d) auto

lemma keys_append_position:
  "fst ` set (append_position p i d) = insert p (fst ` set d)"
  by (induction d) force+

lemma distinct_append_position:
  "distinct (map fst d) \<Longrightarrow> distinct (map fst (append_position p i d))"
proof (induction d)
  case Nil
  show ?case by simp
next
  case (Cons a d)
  obtain k v where a: "a = (k, v)" by (cases a)
  have "k \<notin> set (map fst (append_position p i d))" if "k \<noteq> p"
    using Cons.prems that by (simp add: keys_append_position a)
  then show ?case using Cons by (auto simp add: a)
qed

text \<open>The positions recorded for a key, the empty list for a key that is missing.\<close>

lemma recorded_append_position:
  "recorded (append_position p i d) k = (if k = p then recorded d p @ [i] else recorded d k)"
  by (simp add: recorded_def map_of_append_position)

lemma recorded_scan_window:
  "recorded (scan_window s len d i) k =
     recorded d k @ (if substring s i (i + len) = k \<and> 1 < str_count s k then [i] else [])"
  by (auto simp add: scan_window_def Let_def recorded_append_position)

lemma recorded_foldl_scan_window:
  "recorded (foldl (scan_window s len) d is) k =
     recorded d k @ filter (\<lambda>i. substring s i (i + len) = k \<and> 1 < str_count s k) is"
  by (induction "is" arbitrary: d) (simp_all add: recorded_scan_window)

lemma recorded_scan_length:
  "recorded (scan_length s d len) k =
     recorded d k @
     filter (\<lambda>i. substring s i (i + len) = k \<and> 1 < str_count s k) [0..<length s - len]"
  by (simp add: scan_length_def recorded_foldl_scan_window)

lemma window_length: "i < length s - len \<Longrightarrow> length (substring s i (i + len)) = len"
  by (simp add: substring_def)

lemma recorded_scan_length_other:
  assumes "length k \<noteq> len"
  shows "recorded (scan_length s d len) k = recorded d k"
proof -
  have "filter (\<lambda>i. substring s i (i + len) = k \<and> 1 < str_count s k) [0..<length s - len] = []"
    using assms window_length [of _ s len] by (auto simp add: filter_empty_conv)
  then show ?thesis by (simp add: recorded_scan_length)
qed

lemma recorded_foldl_scan_length:
  "recorded (foldl (scan_length s) d lens) k =
     recorded d k @
     concat (map (\<lambda>len. filter (\<lambda>i. substring s i (i + len) = k \<and> 1 < str_count s k)
                          [0..<length s - len]) lens)"
  by (induction lens arbitrary: d) (simp_all add: recorded_scan_length)

lemma concat_map_single:
  assumes "distinct xs" "\<And>x. x \<in> set xs \<Longrightarrow> x \<noteq> a \<Longrightarrow> f x = []"
  shows "concat (map f xs) = (if a \<in> set xs then f a else [])"
  using assms by (induction xs) auto

lemma recorded_scan_patterns:
  "recorded (scan_patterns s) k =
     (if min_pattern_length \<le> length k \<and> length k \<le> max_pattern_length \<and> 1 < str_count s k
      then filter (\<lambda>i. substring s i (i + length k) = k) [0..<length s - length k]
      else [])"
proof -
  let ?f = "\<lambda>len. filter (\<lambda>i. substring s i (i + len) = k \<and> 1 < str_count s k)
                          [0..<length s - len]"
  have other: "?f len = []" if "len \<noteq> length k" for len
    using that window_length [of _ s len] by (auto simp add: filter_empty_conv)
  have "recorded [] k = []" by (simp add: recorded_def)
  then have "recorded (scan_patterns s) k
      = concat (map ?f [min_pattern_length..<max_pattern_length + 1])"
    unfolding scan_patterns_def recorded_foldl_scan_length by (simp only: append_Nil)
  also have "\<dots> = (if length k \<in> set [min_pattern_length..<max_pattern_length + 1]
      then ?f (length k) else [])"
    by (rule concat_map_single) (use other in auto)
  finally show ?thesis by (auto simp add: filter_empty_conv)
qed

lemma distinct_scan_window:
  "distinct (map fst d) \<Longrightarrow> distinct (map fst (scan_window s len d i))"
  by (simp add: scan_window_def Let_def distinct_append_position)

lemma distinct_foldl_scan_window:
  "distinct (map fst d) \<Longrightarrow> distinct (map fst (foldl (scan_window s len) d is))"
  by (induction "is" arbitrary: d) (simp_all add: distinct_scan_window)

lemma distinct_foldl_scan_length:
  "distinct (map fst d) \<Longrightarrow> distinct (map fst (foldl (scan_length s) d lens))"
  by (induction lens arbitrary: d) (simp_all add: scan_length_def distinct_foldl_scan_window)

lemma distinct_scan_patterns: "distinct (map fst (scan_patterns s))"
  by (simp add: scan_patterns_def distinct_foldl_scan_length)

lemma map_of_filter_distinct:
  "distinct (map fst d) \<Longrightarrow>
     map_of (filter P d) k =
       (case map_of d k of None \<Rightarrow> None | Some v \<Rightarrow> if P (k, v) then Some v else None)"
proof (induction d)
  case Nil
  show ?case by simp
next
  case (Cons a d)
  obtain k' v' where a: "a = (k', v')" by (cases a)
  have "map_of d k' = None" using Cons.prems by (simp add: a map_of_eq_None_iff)
  then show ?case using Cons by (auto simp add: a)
qed

lemma map_of_find_patterns:
  "map_of (find_patterns s) k =
     (if 2 < length (recorded (scan_patterns s) k) then Some (recorded (scan_patterns s) k)
      else None)"
  by (simp add: find_patterns_def map_of_filter_distinct [OF distinct_scan_patterns]
      recorded_def split: option.split)

lemma distinct_find_patterns: "distinct (map fst (find_patterns s))"
  by (simp add: find_patterns_def distinct_map_filter distinct_scan_patterns)

lemma find_patterns_member:
  "(k, ps) \<in> set (find_patterns s) \<longleftrightarrow> map_of (find_patterns s) k = Some ps"
  by (simp add: distinct_find_patterns)

text \<open>
  What \<^verbatim>\<open>_find_patterns\<close> returns for a key: the start indices below
  \<open>length s - length k\<close> at which the key stands, when the key has between 8 and 32
  characters, \<^verbatim>\<open>s.count(k)\<close> is above 1 and more than two indices were recorded; and
  nothing otherwise.
\<close>

lemma find_patterns_lookup:
  "map_of (find_patterns s) k = Some ps \<longleftrightarrow>
     8 \<le> length k \<and> length k \<le> 32 \<and> 1 < str_count s k \<and>
     ps = filter (\<lambda>i. substring s i (i + length k) = k) [0..<length s - length k] \<and>
     2 < length ps"
  by (auto simp add: map_of_find_patterns recorded_scan_patterns min_pattern_length_def
      max_pattern_length_def)

lemma find_patterns_short_key: "length k < 8 \<Longrightarrow> map_of (find_patterns s) k = None"
  using find_patterns_lookup [of s k] by (cases "map_of (find_patterns s) k") auto

subsection \<open>Counting occurrences\<close>

lemma count_from_found:
  "sub \<noteq> [] \<Longrightarrow> prefix sub (drop j s) \<Longrightarrow> 0 < count_from sub s"
proof (induction s arbitrary: j)
  case Nil
  then show ?case by simp
next
  case (Cons c cs)
  show ?case
  proof (cases "prefix sub (c # cs)")
    case True
    then show ?thesis by simp
  next
    case False
    then obtain j' where "j = Suc j'" using Cons.prems(2) by (cases j) auto
    then have "prefix sub (drop j' cs)" using Cons.prems(2) by simp
    then show ?thesis using False Cons.IH [OF Cons.prems(1)] by simp
  qed
qed

lemma count_from_two:
  "sub \<noteq> [] \<Longrightarrow> prefix sub (drop i s) \<Longrightarrow> prefix sub (drop j s) \<Longrightarrow>
   i + length sub \<le> j \<Longrightarrow> 1 < count_from sub s"
proof (induction s arbitrary: i j)
  case Nil
  then show ?case by simp
next
  case (Cons c cs)
  show ?case
  proof (cases "prefix sub (c # cs)")
    case True
    obtain n where n: "length sub = Suc n" using Cons.prems(1) by (cases sub) auto
    have "Suc n \<le> j" using Cons.prems(4) n by simp
    then obtain j' where j: "j = Suc n + j'" by (metis le_Suc_ex)
    have "drop j' (drop (length sub - 1) cs) = drop j (c # cs)"
      by (simp add: n j add.commute)
    then have "prefix sub (drop j' (drop (length sub - 1) cs))"
      using Cons.prems(3) by simp
    then have "0 < count_from sub (drop (length sub - 1) cs)"
      by (rule count_from_found [OF Cons.prems(1)])
    then show ?thesis using True by simp
  next
    case False
    then obtain i' where i: "i = Suc i'" using Cons.prems(2) by (cases i) auto
    then obtain j' where j: "j = Suc j'" using Cons.prems(4) by (cases j) auto
    have "prefix sub (drop i' cs)" "prefix sub (drop j' cs)" "i' + length sub \<le> j'"
      using Cons.prems i j by simp_all
    then show ?thesis using False Cons.IH [OF Cons.prems(1)] by simp
  qed
qed

lemma str_count_two:
  assumes "sub \<noteq> []" "substring s i (i + length sub) = sub"
    "substring s j (j + length sub) = sub" "i + length sub \<le> j"
  shows "1 < str_count s sub"
proof -
  have "prefix sub (drop i s)" "prefix sub (drop j s)"
    using assms(2,3) by (metis add_diff_cancel_left' substring_def take_is_prefix)+
  then have "1 < count_from sub s"
    using assms(4) by (rule count_from_two [OF assms(1)])
  then show ?thesis
    using assms(1) by (simp add: str_count_def)
qed

lemma length_filter_upt_ge:
  assumes "inj_on f A" "finite A" "\<And>a. a \<in> A \<Longrightarrow> f a < n \<and> P (f a)"
  shows "card A \<le> length (filter P [0..<n])"
proof -
  have "{i. i < n \<and> P ([0..<n] ! i)} = {i. i < n \<and> P i}" by auto
  then have "length (filter P [0..<n]) = card {i. i < n \<and> P i}"
    by (simp add: length_filter_conv_card)
  moreover have "f ` A \<subseteq> {i. i < n \<and> P i}" using assms(3) by auto
  then have "card (f ` A) \<le> card {i. i < n \<and> P i}" by (intro card_mono) auto
  ultimately show ?thesis using assms(1) by (simp add: card_image)
qed

lemma two_members_sum_list:
  fixes f :: "'a \<Rightarrow> nat"
  assumes "x \<in> set xs" "y \<in> set xs" "x \<noteq> y"
  shows "f x + f y \<le> sum_list (map f xs)"
proof -
  have "sum_list (map f xs) = f x + sum_list (map f (remove1 x xs))"
    using assms(1) by (rule sum_list_map_remove1)
  moreover have "y \<in> set (remove1 x xs)" using assms(2,3) by simp
  then have "f y \<le> sum_list (map f (remove1 x xs))"
    by (simp add: member_le_sum_list)
  ultimately show ?thesis by simp
qed

lemma str_count_overlapping: "str_count ''AAAAAAAAAA'' ''AAAAAAAA'' = 1"
  by code_simp

subsection \<open>Claims on the pattern detector\<close>

text \<open>
  Claim C7 says that \<^verbatim>\<open>_find_patterns\<close> considers, for every window length from 8 to 32,
  every start index at which a window of that length begins. The loop
  \<^verbatim>\<open>for i in range(len(sequence) - length)\<close> leaves out the last one,
  \<open>len(sequence) - length\<close>. On the sequence of the repository's own test,
  \<^verbatim>\<open>"ACGTACGTACGTACGT"\<close>, the window \<^verbatim>\<open>ACGTACGT\<close> begins at 0, 4 and 8 and occurs twice
  without overlap: the code records 0 and 4 only, drops the key for having no more than 2
  positions and returns the empty map, where the detector of the claim returns the key with
  its three positions.
\<close>

theorem find_patterns_misses_last_window:
  "find_patterns ''ACGTACGTACGTACGT'' = [] \<and>
   spec_find_patterns ''ACGTACGTACGTACGT'' = [(''ACGTACGT'', [0, 4, 8])]"
  by code_simp

subsection \<open>The sequence \<^verbatim>\<open>"ACGT" * 1000\<close>\<close>

lemma drop_periods:
  "drop (length w * j) (concat (replicate n w)) = concat (replicate (n - j) w)"
proof (induction j arbitrary: n)
  case 0
  show ?case by simp
next
  case (Suc j)
  show ?case
  proof (cases n)
    case 0
    then show ?thesis by simp
  next
    case (Suc n')
    have "drop (length w * Suc j) (w @ concat (replicate n' w))
        = drop (length w * j) (concat (replicate n' w))"
      by simp
    then show ?thesis using Suc Suc.IH [of n'] by simp
  qed
qed

lemma length_periods: "length (concat (replicate n ''ACGT'')) = 4 * n"
  by (induction n) simp_all

lemma drop_ACGT:
  "drop (4 * j) (concat (replicate n ''ACGT'')) = concat (replicate (n - j) ''ACGT'')"
proof -
  have period: "length ''ACGT'' = 4" by simp
  show ?thesis using drop_periods [of "''ACGT''" j n] unfolding period .
qed

lemma take_8_ACGT: "2 \<le> m \<Longrightarrow> take 8 (concat (replicate m ''ACGT'')) = ''ACGTACGT''"
proof -
  assume "2 \<le> m"
  then obtain m' where "m = Suc (Suc m')" by (metis add_2_eq_Suc le_Suc_ex)
  then show ?thesis by simp
qed

lemma take_8_CGTA:
  "3 \<le> m \<Longrightarrow> take 8 (drop (Suc 0) (concat (replicate m ''ACGT''))) = ''CGTACGTA''"
proof -
  assume "3 \<le> m"
  then obtain m' where "m = Suc (Suc (Suc m'))"
    by (metis add_2_eq_Suc le_Suc_ex numeral_3_eq_3 add_Suc)
  then show ?thesis by simp
qed

lemma window_ACGTACGT:
  "j + 2 \<le> n \<Longrightarrow> substring (concat (replicate n ''ACGT'')) (4 * j) (4 * j + 8) = ''ACGTACGT''"
  by (simp add: substring_def drop_ACGT take_8_ACGT)

lemma window_CGTACGTA:
  assumes "j + 3 \<le> n"
  shows "substring (concat (replicate n ''ACGT'')) (4 * j + 1) (4 * j + 1 + 8) = ''CGTACGTA''"
proof -
  have "drop (4 * j + 1) (concat (replicate n ''ACGT''))
      = drop (Suc 0) (concat (replicate (n - j) ''ACGT''))"
    using drop_drop [of "Suc 0" "4 * j" "concat (replicate n ''ACGT'')"]
    by (simp add: drop_ACGT)
  then show ?thesis using assms by (simp add: substring_def take_8_CGTA)
qed

lemma count_ACGTACGT: "1 < str_count (concat (replicate 1000 ''ACGT'')) ''ACGTACGT''"
proof (rule str_count_two [where i = 0 and j = 8])
  have len: "length ''ACGTACGT'' = 8" by simp
  show "''ACGTACGT'' \<noteq> []" by simp
  show "substring (concat (replicate 1000 ''ACGT'')) 0 (0 + length ''ACGTACGT'') = ''ACGTACGT''"
    unfolding len using window_ACGTACGT [of 0 1000] by simp
  show "substring (concat (replicate 1000 ''ACGT'')) 8 (8 + length ''ACGTACGT'') = ''ACGTACGT''"
    unfolding len using window_ACGTACGT [of 2 1000] by simp
  show "0 + length ''ACGTACGT'' \<le> 8" by simp
qed

lemma count_CGTACGTA: "1 < str_count (concat (replicate 1000 ''ACGT'')) ''CGTACGTA''"
proof (rule str_count_two [where i = 1 and j = 9])
  have len: "length ''CGTACGTA'' = 8" by simp
  show "''CGTACGTA'' \<noteq> []" by simp
  show "substring (concat (replicate 1000 ''ACGT'')) 1 (1 + length ''CGTACGTA'') = ''CGTACGTA''"
    unfolding len using window_CGTACGTA [of 0 1000] by simp
  show "substring (concat (replicate 1000 ''ACGT'')) 9 (9 + length ''CGTACGTA'') = ''CGTACGTA''"
    unfolding len using window_CGTACGTA [of 2 1000] by simp
  show "1 + length ''CGTACGTA'' \<le> 9" by simp
qed

lemma positions_ACGTACGT:
  "998 \<le> length (filter (\<lambda>i. substring (concat (replicate 1000 ''ACGT'')) i (i + length ''ACGTACGT'')
                               = ''ACGTACGT'')
                   [0..<length (concat (replicate 1000 ''ACGT'')) - length ''ACGTACGT''])"
proof -
  have len: "length ''ACGTACGT'' = 8" by simp
  have "card {..<998::nat} \<le> length (filter (\<lambda>i. substring (concat (replicate 1000 ''ACGT'')) i
            (i + length ''ACGTACGT'') = ''ACGTACGT'')
         [0..<length (concat (replicate 1000 ''ACGT'')) - length ''ACGTACGT''])"
  proof (rule length_filter_upt_ge [where f = "\<lambda>j. 4 * j"])
    show "inj_on (\<lambda>j::nat. 4 * j) {..<998}" by (simp add: inj_on_def)
    show "finite {..<998::nat}" by simp
    show "4 * a < length (concat (replicate 1000 ''ACGT'')) - length ''ACGTACGT'' \<and>
        substring (concat (replicate 1000 ''ACGT'')) (4 * a) (4 * a + length ''ACGTACGT'')
          = ''ACGTACGT''" if "a \<in> {..<998}" for a
      unfolding len length_periods using that window_ACGTACGT [of a 1000] by simp
  qed
  then show ?thesis by simp
qed

lemma positions_CGTACGTA:
  "998 \<le> length (filter (\<lambda>i. substring (concat (replicate 1000 ''ACGT'')) i (i + length ''CGTACGTA'')
                               = ''CGTACGTA'')
                   [0..<length (concat (replicate 1000 ''ACGT'')) - length ''CGTACGTA''])"
proof -
  have len: "length ''CGTACGTA'' = 8" by simp
  have "card {..<998::nat} \<le> length (filter (\<lambda>i. substring (concat (replicate 1000 ''ACGT'')) i
            (i + length ''CGTACGTA'') = ''CGTACGTA'')
         [0..<length (concat (replicate 1000 ''ACGT'')) - length ''CGTACGTA''])"
  proof (rule length_filter_upt_ge [where f = "\<lambda>j. 4 * j + 1"])
    show "inj_on (\<lambda>j::nat. 4 * j + 1) {..<998}" by (simp add: inj_on_def)
    show "finite {..<998::nat}" by simp
    show "4 * a + 1 < length (concat (replicate 1000 ''ACGT'')) - length ''CGTACGTA'' \<and>
        substring (concat (replicate 1000 ''ACGT'')) (4 * a + 1) (4 * a + 1 + length ''CGTACGTA'')
          = ''CGTACGTA''" if "a \<in> {..<998}" for a
      unfolding len length_periods using that window_CGTACGTA [of a 1000] by simp
  qed
  then show ?thesis by simp
qed

lemma threshold_4000: "fl (fl 4000 * fl (3 / 10)) = 1200"
  by code_simp

text \<open>
  Claim C9 says that for \<^verbatim>\<open>"ACGT" * 1000\<close> the map of \<^verbatim>\<open>_find_patterns\<close> has the key
  \<^verbatim>\<open>ACGT\<close>, or a rotation of it, with more than 2 positions. No key of the map has fewer
  than 8 characters, so none of the four rotations is a key.
\<close>

theorem find_patterns_ACGT_counterexample:
  "map_of (find_patterns (concat (replicate 1000 ''ACGT''))) ''ACGT'' = None \<and>
   map_of (find_patterns (concat (replicate 1000 ''ACGT''))) ''CGTA'' = None \<and>
   map_of (find_patterns (concat (replicate 1000 ''ACGT''))) ''GTAC'' = None \<and>
   map_of (find_patterns (concat (replicate 1000 ''ACGT''))) ''TACG'' = None"
  by (simp add: find_patterns_short_key)

text \<open>
  Claim C9 as amended: for \<^verbatim>\<open>"ACGT" * 1000\<close> the map of \<^verbatim>\<open>_find_patterns\<close> has the key
  \<^verbatim>\<open>ACGTACGT\<close> (the period twice, the shortest window there is) with more than 2
  recorded positions, and \<^verbatim>\<open>_is_highly_repetitive\<close> returns true for that input.
\<close>

theorem find_patterns_ACGT_periodic:
  "(\<exists>positions. map_of (find_patterns (concat (replicate 1000 ''ACGT''))) ''ACGTACGT''
        = Some positions \<and> 2 < length positions) \<and>
   is_highly_repetitive (concat (replicate 1000 ''ACGT''))"
proof -
  let ?s = "concat (replicate 1000 ''ACGT'')"
  define ps1 where "ps1 = filter (\<lambda>i. substring ?s i (i + length ''ACGTACGT'') = ''ACGTACGT'')
      [0..<length ?s - length ''ACGTACGT'']"
  define ps2 where "ps2 = filter (\<lambda>i. substring ?s i (i + length ''CGTACGTA'') = ''CGTACGTA'')
      [0..<length ?s - length ''CGTACGTA'']"
  have n1: "998 \<le> length ps1" unfolding ps1_def by (rule positions_ACGTACGT)
  have n2: "998 \<le> length ps2" unfolding ps2_def by (rule positions_CGTACGTA)
  have k1: "map_of (find_patterns ?s) ''ACGTACGT'' = Some ps1"
    unfolding find_patterns_lookup using count_ACGTACGT n1 ps1_def by simp
  have k2: "map_of (find_patterns ?s) ''CGTACGTA'' = Some ps2"
    unfolding find_patterns_lookup using count_CGTACGTA n2 ps2_def by simp
  have "(''ACGTACGT'', ps1) \<in> set (find_patterns ?s)" "(''CGTACGTA'', ps2) \<in> set (find_patterns ?s)"
    using k1 k2 by (simp_all add: find_patterns_member)
  moreover have "(''ACGTACGT'', ps1) \<noteq> (''CGTACGTA'', ps2)" by simp
  ultimately have "(case (''ACGTACGT'', ps1) of (k, positions) \<Rightarrow> length positions)
      + (case (''CGTACGTA'', ps2) of (k, positions) \<Rightarrow> length positions)
      \<le> sum_list (map (\<lambda>(k, positions). length positions) (find_patterns ?s))"
    by (rule two_members_sum_list)
  then have "1996 \<le> sum_list (map (\<lambda>(k, positions). length positions) (find_patterns ?s))"
    using n1 n2 by simp
  then have "of_nat 1996 \<le> (of_nat (sum_list (map (\<lambda>(k, positions). length positions)
      (find_patterns ?s))) :: rat)"
    by (simp only: of_nat_le_iff)
  then have "(1200::rat) < of_nat (sum_list (map (\<lambda>(k, positions). length positions)
      (find_patterns ?s)))"
    by simp
  then have "is_highly_repetitive ?s"
    by (simp add: is_highly_repetitive_def Let_def length_periods threshold_4000)
  then show ?thesis using k1 n1 by simp
qed

subsection \<open>Claim on the chunks and the metadata list of \<^verbatim>\<open>compress\<close>\<close>

lemma valid_ACGT_1000: "validate_sequence (concat (replicate 1000 ''ACGT''))"
proof (rule validate_sequence_admits)
  show "100 \<le> length (concat (replicate 1000 ''ACGT''))"
    by (simp add: length_periods)
  have "upper_char c \<in> set ''ACGTN''" if "c \<in> set ''ACGT''" for c
    using that by (auto simp add: upper_char_def)
  then show "list_all (\<lambda>c. upper_char c \<in> set ''ACGTN'') (concat (replicate 1000 ''ACGT''))"
    unfolding list_all_iff by auto
qed

lemma compress_chunks_metadata:
  assumes "0 < C"
  shows "\<exists>compressed mds. compress_chunks lib C s = Inr (compressed, mds) \<and>
     int (length mds) = \<lceil>real (length s) / real_of_int C\<rceil> \<and>
     sum_list (map original_length mds) = int (length s)"
  using chunk_invariants [OF assms, of s lib]
  by (elim exE conjE) (intro exI conjI, assumption, simp, assumption)

text \<open>
  Claim C8 says that \<^verbatim>\<open>compress\<close>, for an input of \<open>N\<close> symbols and a chunk size \<open>C\<close>,
  produces a metadata list with one entry for each of the \<open>\<lceil>N / C\<rceil>\<close> chunks, whose
  \<^verbatim>\<open>original_length\<close> fields add up to \<open>N\<close>. The code builds such a list and then raises
  \<^verbatim>\<open>TypeError\<close> in the statistics, so the caller gets no list. On the input of the
  repository's \<^verbatim>\<open>test_large_sequence\<close>, \<^verbatim>\<open>'ACGT' * 1000\<close> with the chunk size 100, the
  list held inside \<^verbatim>\<open>compress\<close> has the 40 entries of the 40 chunks and lengths that add
  up to 4000, and \<^verbatim>\<open>compress\<close> raises \<^verbatim>\<open>TypeError\<close>; it returns a metadata list for no
  compressor state and no input.
\<close>

theorem compress_returns_no_metadata:
  "compress lib (GenomeCompressor 100) (concat (replicate 1000 ''ACGT'')) = Inl TypeError \<and>
   (\<exists>compressed mds.
      compress_chunks lib 100 (concat (replicate 1000 ''ACGT'')) = Inr (compressed, mds) \<and>
      length mds = 40 \<and> sum_list (map original_length mds) = 4000) \<and>
   (\<forall>self s blob mds self'. compress lib self s \<noteq> Inr ((blob, mds), self'))"
proof -
  let ?s = "concat (replicate 1000 ''ACGT'')"
  have raised: "compress lib (GenomeCompressor 100) ?s = Inl TypeError"
    by (rule compress_valid_TypeError [OF valid_ACGT_1000]) (simp add: GenomeCompressor_def)
  have pos: "(0::int) < 100" by simp
  obtain compressed mds where inner:
    "compress_chunks lib 100 ?s = Inr (compressed, mds)"
    "int (length mds) = \<lceil>real (length ?s) / real_of_int 100\<rceil>"
    "sum_list (map original_length mds) = int (length ?s)"
    using compress_chunks_metadata [OF pos, of lib ?s] by blast
  have "int (length mds) = 40" using inner(2) by (simp add: length_periods)
  then have "length mds = 40" by simp
  moreover have "sum_list (map original_length mds) = 4000"
    using inner(3) by (simp add: length_periods)
  ultimately have "\<exists>compressed mds. compress_chunks lib 100 ?s = Inr (compressed, mds) \<and>
      length mds = 40 \<and> sum_list (map original_length mds) = 4000"
    using inner(1) by blast
  then show ?thesis using raised compress_never_returns by blast
qed

end
